theory Spec2Isabelle
  imports Main "HOL-Library.Word"
begin

unbundle bit_operations_syntax

section \<open>The typestep compiler (typestep.go) as a shallow embedding\<close>

text \<open>
  typestep.go compiles a pipeline of the duct algebra into an AWS Step Functions chain.
  The compiler is the visitor \<^verbatim>\<open>typeStep\<close>: a mutable record that the traversal of the
  pipeline's syntax tree drives through its \<^verbatim>\<open>OnEnter...\<close> / \<^verbatim>\<open>OnLeave...\<close> callbacks.

  Modelling decisions:
  \<^item> Every callback is a function from the compiler state to the compiler state after
    the call, paired with the returned \<^verbatim>\<open>error\<close> (\<open>None\<close> is Go's \<^verbatim>\<open>nil\<close>). A run-time
    panic of Go (index out of range, a nil value handed to a constructor that requires
    one) is the error value \<open>Panic\<close>, returned with the state as the panic leaves it.
  \<^item> Handles of the cloud development kit (functions, queues, event buses) are opaque
    values carrying their construct identifier. Interface values that the code compares
    with \<^verbatim>\<open>nil\<close> are options.
  \<^item> The states of the kit (\<^verbatim>\<open>LambdaInvoke\<close>, \<^verbatim>\<open>Map\<close>, \<^verbatim>\<open>SqsSendMessage\<close>,
    \<^verbatim>\<open>EventBridgePutEvents\<close>, \<^verbatim>\<open>Fail\<close>) are values holding exactly the properties the
    code passes to their constructors; a chain is the list of its states in order. The
    registration of a state in the construct scope (and the uniqueness of identifiers
    the scope demands) is not part of the model.
  \<^item> The \<^verbatim>\<open>depth\<close> argument of the callbacks is read by none of them and is left out.
\<close>

subsection \<open>SHA-256 and hexadecimal encoding (crypto/sha256, encoding/hex)\<close>

text \<open>
  The identifier of a fan-out is cut from a SHA-256 digest, so the digest is part of the
  model: the algorithm of FIPS 180-4 on 32-bit words, with the round constants and the
  initial hash value of the standard (the table \<^verbatim>\<open>_K\<close> and \<^verbatim>\<open>init0 .. init7\<close> of
  \<^verbatim>\<open>crypto/sha256\<close>), eight constants to a row.
\<close>

type_synonym u32 = "32 word"

definition sha256_K :: "u32 list" where
  "sha256_K =
     [0x428a2f98, 0x71374491, 0xb5c0fbcf, 0xe9b5dba5, 0x3956c25b, 0x59f111f1, 0x923f82a4, 0xab1c5ed5] @
     [0xd807aa98, 0x12835b01, 0x243185be, 0x550c7dc3, 0x72be5d74, 0x80deb1fe, 0x9bdc06a7, 0xc19bf174] @
     [0xe49b69c1, 0xefbe4786, 0x0fc19dc6, 0x240ca1cc, 0x2de92c6f, 0x4a7484aa, 0x5cb0a9dc, 0x76f988da] @
     [0x983e5152, 0xa831c66d, 0xb00327c8, 0xbf597fc7, 0xc6e00bf3, 0xd5a79147, 0x06ca6351, 0x14292967] @
     [0x27b70a85, 0x2e1b2138, 0x4d2c6dfc, 0x53380d13, 0x650a7354, 0x766a0abb, 0x81c2c92e, 0x92722c85] @
     [0xa2bfe8a1, 0xa81a664b, 0xc24b8b70, 0xc76c51a3, 0xd192e819, 0xd6990624, 0xf40e3585, 0x106aa070] @
     [0x19a4c116, 0x1e376c08, 0x2748774c, 0x34b0bcb5, 0x391c0cb3, 0x4ed8aa4a, 0x5b9cca4f, 0x682e6ff3] @
     [0x748f82ee, 0x78a5636f, 0x84c87814, 0x8cc70208, 0x90befffa, 0xa4506ceb, 0xbef9a3f7, 0xc67178f2]"

definition sha256_init :: "u32 list" where
  "sha256_init = [0x6a09e667, 0xbb67ae85, 0x3c6ef372, 0xa54ff53a,
                  0x510e527f, 0x9b05688c, 0x1f83d9ab, 0x5be0cd19]"

definition rotr :: "nat \<Rightarrow> u32 \<Rightarrow> u32" where
  "rotr n x = word_rotr n x"

definition bsig0 :: "u32 \<Rightarrow> u32" where
  "bsig0 x = rotr 2 x XOR rotr 13 x XOR rotr 22 x"

definition bsig1 :: "u32 \<Rightarrow> u32" where
  "bsig1 x = rotr 6 x XOR rotr 11 x XOR rotr 25 x"

definition ssig0 :: "u32 \<Rightarrow> u32" where
  "ssig0 x = rotr 7 x XOR rotr 18 x XOR drop_bit 3 x"

definition ssig1 :: "u32 \<Rightarrow> u32" where
  "ssig1 x = rotr 17 x XOR rotr 19 x XOR drop_bit 10 x"

definition ch :: "u32 \<Rightarrow> u32 \<Rightarrow> u32 \<Rightarrow> u32" where
  "ch x y z = (x AND y) XOR (NOT x AND z)"

definition maj :: "u32 \<Rightarrow> u32 \<Rightarrow> u32 \<Rightarrow> u32" where
  "maj x y z = (x AND y) XOR (x AND z) XOR (y AND z)"

text \<open>The message is padded with the byte 128, zero bytes up to 56 modulo 64, and its
  length in bits as eight big-endian bytes.\<close>

type_synonym byte = "8 word"

definition be32 :: "u32 \<Rightarrow> byte list" where
  "be32 w = [ucast (drop_bit 24 w), ucast (drop_bit 16 w), ucast (drop_bit 8 w), ucast w]"

definition be64 :: "64 word \<Rightarrow> byte list" where
  "be64 w = be32 (ucast (drop_bit 32 w)) @ be32 (ucast w)"

definition sha256_pad :: "byte list \<Rightarrow> byte list" where
  "sha256_pad bs =
     (let l = length bs
      in bs @ [128] @ replicate ((119 - l mod 64) mod 64) 0 @ be64 (of_nat (8 * l)))"

fun be_words :: "byte list \<Rightarrow> u32 list" where
  "be_words (a # b # c # d # r) =
     (push_bit 24 (ucast a) OR push_bit 16 (ucast b) OR push_bit 8 (ucast c) OR ucast d)
       # be_words r"
| "be_words _ = []"

fun sha256_schedule :: "nat \<Rightarrow> u32 list \<Rightarrow> u32 list" where
  "sha256_schedule 0 w = w"
| "sha256_schedule (Suc n) w =
     (let t = length w
      in sha256_schedule n
           (w @ [ssig1 (w ! (t - 2)) + w ! (t - 7) + ssig0 (w ! (t - 15)) + w ! (t - 16)]))"

fun sha256_round :: "u32 list \<Rightarrow> u32 \<times> u32 \<Rightarrow> u32 list" where
  "sha256_round [a, b, c, d, e, f, g, h] (k, w) =
     (let t1 = h + bsig1 e + ch e f g + k + w;
          t2 = bsig0 a + maj a b c
      in [t1 + t2, a, b, c, d + t1, e, f, g])"
| "sha256_round s _ = s"

definition sha256_block :: "u32 list \<Rightarrow> u32 list \<Rightarrow> u32 list" where
  "sha256_block hs blk =
     map2 (+) hs (foldl sha256_round hs (zip sha256_K (sha256_schedule 48 blk)))"

fun sha256_blocks :: "nat \<Rightarrow> u32 list \<Rightarrow> u32 list \<Rightarrow> u32 list" where
  "sha256_blocks 0 hs ws = hs"
| "sha256_blocks (Suc n) hs ws = sha256_blocks n (sha256_block hs (take 16 ws)) (drop 16 ws)"

text \<open>\<^verbatim>\<open>sha256.Sum256([]byte(name))\<close>: the 32 bytes of the digest.\<close>

definition sha256_Sum256 :: "string \<Rightarrow> byte list" where
  "sha256_Sum256 data =
     (let ws = be_words (sha256_pad (map of_char data))
      in concat (map be32 (sha256_blocks (length ws div 16) sha256_init ws)))"

definition hexdigit :: "nat \<Rightarrow> char" where
  "hexdigit n = ''0123456789abcdef'' ! n"

text \<open>\<^verbatim>\<open>hex.EncodeToString\<close>: two lower-case digits for every byte.\<close>

definition hex_EncodeToString :: "byte list \<Rightarrow> string" where
  "hex_EncodeToString bs =
     concat (map (\<lambda>b. [hexdigit (unat b div 16), hexdigit (unat b mod 16)]) bs)"

subsection \<open>Handles and payloads\<close>

datatype ifunction = IFunction (function_id: string)
datatype iqueue = IQueue (queue_id: string)
datatype ieventbus = IEventBus (eventbus_id: string)

text \<open>\<^verbatim>\<open>type source struct { cat []string; bus awsevents.IEventBus }\<close>\<close>

record source =
  src_cat :: "string list"
  src_bus :: "ieventbus option"

text \<open>\<^verbatim>\<open>type lambda struct { concurency int; f awslambda.IFunction }\<close>\<close>

record lambda =
  concurency :: int
  lambda_f :: ifunction

text \<open>\<^verbatim>\<open>type eventbus struct { bus awsevents.IEventBus; source string; cat []string }\<close>\<close>

record eventbus =
  eb_bus :: "ieventbus option"
  eb_source :: string
  eb_cat :: "string list"

text \<open>
  The payloads of the syntax tree have the static type \<^verbatim>\<open>any\<close>; the callbacks switch on
  their dynamic type. Each payload type lists the dynamic types the switch knows and one
  more constructor for every other value, carrying the type name that the verb
  \<^verbatim>\<open>%T\<close> prints for it.
\<close>

datatype binding = Lambda lambda | OtherBinding string
datatype origin = Source source | OtherSource string
datatype target = Queue iqueue | EventBus eventbus | OtherTarget string

text \<open>The syntax tree of duct: \<^verbatim>\<open>AstFrom{Type, Source}\<close>, \<^verbatim>\<open>AstMap{F}\<close>,
  \<^verbatim>\<open>AstSeq{Seq}\<close>, \<^verbatim>\<open>AstYield{Type, Target}\<close>.\<close>

datatype ast =
    AstFrom string origin
  | AstMap binding
  | AstSeq "ast list"
  | AstYield string target

subsection \<open>States, chains and emitted resources\<close>

datatype state =
    LambdaInvoke string string ifunction "(state list \<times> string) list"
  | MapState string string int "state list"
  | SqsSendMessage string iqueue string
  | EventBridgePutEvents string string string string "ieventbus option"
  | FailState string

type_synonym chain = "state list"

text \<open>\<^verbatim>\<open>f.Node().Id()\<close>: the identifier a state was constructed with.\<close>

fun state_id :: "state \<Rightarrow> string" where
  "state_id (LambdaInvoke i _ _ _) = i"
| "state_id (MapState i _ _ _) = i"
| "state_id (SqsSendMessage i _ _) = i"
| "state_id (EventBridgePutEvents i _ _ _ _) = i"
| "state_id (FailState i) = i"

datatype resource =
    StateMachine chain
  | Rule ieventbus "string list option" resource

datatype error = Error string | Panic string

subsection \<open>The compiler state\<close>

record typeStepProps =
  props_DeadLetterQueue :: "iqueue option"
  props_SeqConcurrency :: "int option"

text \<open>
  \<^verbatim>\<open>type typeStep struct\<close>. \<open>stack\<close> holds \<open>None\<close> for a \<^verbatim>\<open>nil\<close> chain. \<open>resources\<close>
  lists what the pass has created in its scope beside states: state machines and rules.
\<close>

record typeStep =
  DeadLetterQueue :: "iqueue option"
  bus :: "ieventbus option"
  eventPattern :: "string list option"
  args :: string
  stack :: "chain option list"
  names :: "string list"
  resources :: "resource list"

definition NewTypeStep :: "typeStepProps \<Rightarrow> typeStep" where
  "NewTypeStep props =
     \<lparr> DeadLetterQueue = props_DeadLetterQueue props,
       bus = None,
       eventPattern = None,
       args = '''',
       stack = [None],
       names = [''''],
       resources = [] \<rparr>"

text \<open>\<^verbatim>\<open>func (ts *typeStep) append(f node)\<close>\<close>

definition ts_append :: "state \<Rightarrow> typeStep \<Rightarrow> typeStep \<times> error option" where
  "ts_append f ts =
     (if stack ts = [] then (ts, Some (Panic ''index out of range [-1]''))
      else
        let tsal = length (stack ts) - 1;
            ts1 = ts\<lparr> stack := (stack ts)[tsal :=
                    (case stack ts ! tsal of
                       None \<Rightarrow> Some [f]
                     | Some c \<Rightarrow> Some (c @ [f]))] \<rparr>
        in if length (names ts1) \<le> tsal then (ts1, Some (Panic ''index out of range''))
           else (ts1\<lparr> names := (names ts1)[tsal := names ts1 ! tsal @ state_id f] \<rparr>, None))"

definition OnEnterMorphism :: "typeStep \<Rightarrow> typeStep \<times> error option" where
  "OnEnterMorphism ts = (ts, None)"

text \<open>
  \<^verbatim>\<open>ChainDefinitionBody_FromChainable\<close> requires its parameter: the binding of the kit
  panics on \<^verbatim>\<open>nil\<close>.
\<close>

definition OnLeaveMorphism :: "typeStep \<Rightarrow> typeStep \<times> error option" where
  "OnLeaveMorphism ts =
     (if length (stack ts) \<noteq> 1 then (ts, Some (Error ''bad definition of compute pipeline''))
      else case bus ts of
        None \<Rightarrow> (ts, Some (Error ''undefined event source for compute pipeline''))
      | Some b \<Rightarrow>
          (case stack ts ! 0 of
             None \<Rightarrow> (ts, Some (Panic ''parameter chainable is required, but nil was provided''))
           | Some c \<Rightarrow>
               let states = StateMachine c
               in (ts\<lparr> resources := resources ts @ [states, Rule b (eventPattern ts) states] \<rparr>,
                   None)))"

definition OnEnterSeq :: "typeStep \<Rightarrow> typeStep \<times> error option" where
  "OnEnterSeq ts =
     (ts\<lparr> stack := stack ts @ [None], names := names ts @ [''''], args := ''$'' \<rparr>, None)"

text \<open>
  \<^verbatim>\<open>OnLeaveSeq\<close> reads \<^verbatim>\<open>ts.names[last]\<close> and \<^verbatim>\<open>node.Seq[0]\<close>, both of which panic out
  of range; \<^verbatim>\<open>ItemProcessor\<close> requires its chain and panics on \<^verbatim>\<open>nil\<close>. The slices
  \<^verbatim>\<open>ts.stack[:last]\<close> and \<^verbatim>\<open>ts.names[:last]\<close> are within bounds once the reads before
  them have succeeded.
\<close>

definition OnLeaveSeq :: "ast list \<Rightarrow> typeStep \<Rightarrow> typeStep \<times> error option" where
  "OnLeaveSeq seq ts =
     (if stack ts = [] then (ts, Some (Panic ''index out of range [-1]''))
      else
        let last = length (stack ts) - 1
        in if length (names ts) \<le> last then (ts, Some (Panic ''index out of range''))
           else
             let name = names ts ! last;
                 hash = sha256_Sum256 name;
                 ihex = take 8 (hex_EncodeToString hash)
             in (case seq of
                   [] \<Rightarrow> (ts, Some (Panic ''index out of range [0] with length 0''))
                 | n # _ \<Rightarrow>
                     let concurency =
                           (case n of
                              AstMap (Lambda l) \<Rightarrow> concurency l
                            | _ \<Rightarrow> 1)
                     in (case stack ts ! last of
                           None \<Rightarrow>
                             (ts, Some (Panic ''parameter processor is required, but nil was provided''))
                         | Some c \<Rightarrow>
                             let foreach = MapState (''Seq'' @ ihex) ''$.Payload'' concurency c;
                                 ts1 = ts\<lparr> stack := take last (stack ts) \<rparr>;
                                 ts2 = ts1\<lparr> names := take last (names ts1) \<rparr>
                             in (case ts_append foreach ts2 of
                                   (ts3, Some e) \<Rightarrow> (ts3, Some e)
                                 | (ts3, None) \<Rightarrow> (ts3\<lparr> args := ''$'' \<rparr>, None)))))"

definition OnEnterMap :: "binding \<Rightarrow> typeStep \<Rightarrow> typeStep \<times> error option" where
  "OnEnterMap F ts =
     (case F of
        Lambda l \<Rightarrow>
          let uuid = function_id (lambda_f l);
              catches =
                (case DeadLetterQueue ts of
                   None \<Rightarrow> []
                 | Some q \<Rightarrow>
                     let dlq = SqsSendMessage (''Try'' @ uuid) q ''$'';
                         err = FailState (''Err'' @ uuid)
                     in [([dlq, err], ''$.error'')]);
              compute = LambdaInvoke (''Map'' @ uuid) (args ts) (lambda_f l) catches
          in ts_append compute ts
      | OtherBinding T \<Rightarrow> (ts, Some (Error (''unkown compute type: '' @ T))))"

definition OnLeaveMap :: "typeStep \<Rightarrow> typeStep \<times> error option" where
  "OnLeaveMap ts = (ts\<lparr> args := ''$.Payload'' \<rparr>, None)"

definition OnEnterFrom :: "string \<Rightarrow> origin \<Rightarrow> typeStep \<Rightarrow> typeStep \<times> error option" where
  "OnEnterFrom Type src ts =
     (case src of
        Source s \<Rightarrow>
          (ts\<lparr> bus := src_bus s,
               eventPattern := Some (if length (src_cat s) \<noteq> 0 then src_cat s else [Type]),
               args := ''$.detail'' \<rparr>, None)
      | OtherSource T \<Rightarrow> (ts, Some (Error (''unkown input type: '' @ T))))"

definition OnLeaveFrom :: "typeStep \<Rightarrow> typeStep \<times> error option" where
  "OnLeaveFrom ts = (ts, None)"

definition OnEnterYield :: "string \<Rightarrow> target \<Rightarrow> typeStep \<Rightarrow> typeStep \<times> error option" where
  "OnEnterYield Type tgt ts =
     (case tgt of
        Queue q \<Rightarrow> ts_append (SqsSendMessage ''Sink'' q (args ts)) ts
      | EventBus e \<Rightarrow>
          let kind = (if length (eb_cat e) \<noteq> 0 then eb_cat e ! 0 else Type)
          in ts_append (EventBridgePutEvents ''Sink'' (args ts) kind (eb_source e) (eb_bus e)) ts
      | OtherTarget T \<Rightarrow> (ts, Some (Error (''unkown reply type: '' @ T))))"

definition OnLeaveYield :: "typeStep \<Rightarrow> typeStep \<times> error option" where
  "OnLeaveYield ts = (ts, None)"

subsection \<open>The traversal\<close>

text \<open>
  Modelled from the spec: the driver \<^verbatim>\<open>Apply\<close> of the duct library, which is not part of
  the repository. The specification of the visitor protocol fixes the order of the calls:
  \<^verbatim>\<open>OnEnterMorphism\<close>, then for every node of the chain in order its \<^verbatim>\<open>OnEnter\<close> and
  \<^verbatim>\<open>OnLeave\<close> callback, a \<^verbatim>\<open>Seq\<close> node enclosing the calls of its own chain between
  \<^verbatim>\<open>OnEnterSeq\<close> and \<^verbatim>\<open>OnLeaveSeq\<close>, and \<^verbatim>\<open>OnLeaveMorphism\<close> last. A callback that
  returns an error ends the traversal.
\<close>

datatype event =
    EnterMorphism
  | LeaveMorphism
  | EnterSeq "ast list"
  | LeaveSeq "ast list"
  | EnterMap binding
  | LeaveMap binding
  | EnterFrom string origin
  | LeaveFrom string origin
  | EnterYield string target
  | LeaveYield string target

fun dispatch :: "event \<Rightarrow> typeStep \<Rightarrow> typeStep \<times> error option" where
  "dispatch EnterMorphism ts = OnEnterMorphism ts"
| "dispatch LeaveMorphism ts = OnLeaveMorphism ts"
| "dispatch (EnterSeq seq) ts = OnEnterSeq ts"
| "dispatch (LeaveSeq seq) ts = OnLeaveSeq seq ts"
| "dispatch (EnterMap F) ts = OnEnterMap F ts"
| "dispatch (LeaveMap F) ts = OnLeaveMap ts"
| "dispatch (EnterFrom Type src) ts = OnEnterFrom Type src ts"
| "dispatch (LeaveFrom Type src) ts = OnLeaveFrom ts"
| "dispatch (EnterYield Type tgt) ts = OnEnterYield Type tgt ts"
| "dispatch (LeaveYield Type tgt) ts = OnLeaveYield ts"

fun run :: "event list \<Rightarrow> typeStep \<Rightarrow> typeStep \<times> error option" where
  "run [] ts = (ts, None)"
| "run (e # es) ts =
     (case dispatch e ts of
        (ts', None) \<Rightarrow> run es ts'
      | (ts', Some err) \<Rightarrow> (ts', Some err))"

fun trace :: "ast \<Rightarrow> event list" where
  "trace (AstFrom Type src) = [EnterFrom Type src, LeaveFrom Type src]"
| "trace (AstMap F) = [EnterMap F, LeaveMap F]"
| "trace (AstSeq seq) = EnterSeq seq # concat (map trace seq) @ [LeaveSeq seq]"
| "trace (AstYield Type tgt) = [EnterYield Type tgt, LeaveYield Type tgt]"

definition trace_morphism :: "ast list \<Rightarrow> event list" where
  "trace_morphism root = EnterMorphism # concat (map trace root) @ [LeaveMorphism]"

definition Apply :: "ast list \<Rightarrow> typeStep \<Rightarrow> typeStep \<times> error option" where
  "Apply root ts = run (trace_morphism root) ts"

text \<open>\<^verbatim>\<open>func StateMachine(ts TypeStep, m duct.Morphism[A, B])\<close> panics with the error of the
  traversal.\<close>

definition StateMachine_of :: "typeStep \<Rightarrow> ast list \<Rightarrow> typeStep \<times> error option" where
  "StateMachine_of b m =
     (case Apply m b of
        (b', None) \<Rightarrow> (b', None)
      | (b', Some (Error msg)) \<Rightarrow> (b', Some (Panic msg))
      | (b', Some (Panic msg)) \<Rightarrow> (b', Some (Panic msg)))"

subsection \<open>The payloads built by the pipeline algebra\<close>

text \<open>
  \<^verbatim>\<open>From\<close>, \<^verbatim>\<open>Join\<close>, \<^verbatim>\<open>Lift\<close>, \<^verbatim>\<open>LiftP\<close>, \<^verbatim>\<open>ToQueue\<close> and \<^verbatim>\<open>ToEventBus\<close> build
  a payload and hand it to the constructor of the duct library of the same role. The
  payloads are modelled here; the node a payload ends up in is the library's business.
  A variadic parameter that receives no argument is the empty list.
\<close>

definition From_payload :: "ieventbus option \<Rightarrow> string list \<Rightarrow> origin" where
  "From_payload in_bus cat = Source \<lparr> src_cat = cat, src_bus = in_bus \<rparr>"

definition Join_payload :: "ifunction \<Rightarrow> binding" where
  "Join_payload fn = Lambda \<lparr> concurency = 1, lambda_f = fn \<rparr>"

definition Lift_payload :: "ifunction \<Rightarrow> binding" where
  "Lift_payload fn = Lambda \<lparr> concurency = 1, lambda_f = fn \<rparr>"

definition LiftP_payload :: "int \<Rightarrow> ifunction \<Rightarrow> binding" where
  "LiftP_payload n fn = Lambda \<lparr> concurency = n, lambda_f = fn \<rparr>"

definition ToQueue_payload :: "iqueue \<Rightarrow> target" where
  "ToQueue_payload q = Queue q"

definition ToEventBus_payload :: "string \<Rightarrow> ieventbus option \<Rightarrow> string list \<Rightarrow> target" where
  "ToEventBus_payload src b cat = EventBus \<lparr> eb_bus = b, eb_source = src, eb_cat = cat \<rparr>"

section \<open>Notions used to state and prove the properties\<close>

text \<open>The states of a chain on the stack; a \<^verbatim>\<open>nil\<close> chain has none.\<close>

fun chain_of :: "chain option \<Rightarrow> chain" where
  "chain_of None = []"
| "chain_of (Some c) = c"

text \<open>\<open>always Q es ts\<close>: \<open>Q\<close> holds of the compiler state after every number of
  callbacks of \<open>es\<close>, run from \<open>ts\<close>.\<close>

definition always :: "(typeStep \<Rightarrow> bool) \<Rightarrow> event list \<Rightarrow> typeStep \<Rightarrow> bool" where
  "always Q es ts = (\<forall>n. Q (fst (run (take n es) ts)))"

text \<open>\<open>lvl st ns ts\<close>: the state has exactly one open level on top of the levels \<open>st\<close>
  (with names \<open>ns\<close>); \<open>at_least st ns ts\<close>: it has one or more. \<open>bal st ns xs ts\<close>: the
  callbacks \<open>xs\<close> never go below the level they start at, and end at that level when
  they all succeed.\<close>

definition lvl :: "chain option list \<Rightarrow> string list \<Rightarrow> typeStep \<Rightarrow> bool" where
  "lvl st ns ts =
     (length ns = length st \<and> (\<exists>tp nm. stack ts = st @ [tp] \<and> names ts = ns @ [nm]))"

definition at_least :: "chain option list \<Rightarrow> string list \<Rightarrow> typeStep \<Rightarrow> bool" where
  "at_least st ns ts =
     (length ns = length st \<and>
      (\<exists>st' ns'. stack ts = st @ st' \<and> names ts = ns @ ns' \<and> st' \<noteq> [] \<and> length ns' = length st'))"

definition bal :: "chain option list \<Rightarrow> string list \<Rightarrow> event list \<Rightarrow> typeStep \<Rightarrow> bool" where
  "bal st ns xs ts =
     (always (at_least st ns) xs ts \<and> (\<forall>ts'. run xs ts = (ts', None) \<longrightarrow> lvl st ns ts'))"

text \<open>The payloads the callbacks know, through the whole tree; the callbacks that meet
  another payload.\<close>

fun recognised :: "ast \<Rightarrow> bool" where
  "recognised (AstFrom Type (OtherSource T)) = False"
| "recognised (AstMap (OtherBinding T)) = False"
| "recognised (AstYield Type (OtherTarget T)) = False"
| "recognised (AstSeq seq) = (\<forall>a \<in> set seq. recognised a)"
| "recognised _ = True"

fun unrecognised_event :: "event \<Rightarrow> bool" where
  "unrecognised_event (EnterFrom Type (OtherSource T)) = True"
| "unrecognised_event (EnterMap (OtherBinding T)) = True"
| "unrecognised_event (EnterYield Type (OtherTarget T)) = True"
| "unrecognised_event _ = False"

text \<open>A \<^verbatim>\<open>From\<close> node somewhere in the tree.\<close>

fun has_from :: "ast \<Rightarrow> bool" where
  "has_from (AstFrom Type src) = True"
| "has_from (AstSeq seq) = (\<exists>a \<in> set seq. has_from a)"
| "has_from _ = False"

fun is_EnterFrom :: "event \<Rightarrow> bool" where
  "is_EnterFrom (EnterFrom Type src) = True"
| "is_EnterFrom _ = False"

text \<open>
  The scenario of the specification: \<^verbatim>\<open>From<Account>(bus)\<close>, \<^verbatim>\<open>Join(GetUser)\<close>,
  \<^verbatim>\<open>Join(PickCategory)\<close>, \<^verbatim>\<open>Lift(PickProduct)\<close>, \<^verbatim>\<open>Lift(MailTo)\<close>, \<^verbatim>\<open>ToQueue(reply)\<close>,
  with the reply queue as dead-letter queue. The fan-out over the categories encloses
  the fan-out over the products.
\<close>

definition scenario :: "ast list" where
  "scenario =
     [AstFrom ''Account'' (From_payload (Some (IEventBus ''Input'')) []),
      AstMap (Join_payload (IFunction ''GetUser'')),
      AstMap (Join_payload (IFunction ''PickCategory'')),
      AstSeq [AstMap (Lift_payload (IFunction ''PickProduct'')),
              AstSeq [AstMap (Lift_payload (IFunction ''MailTo''))]],
      AstYield ''Mail'' (ToQueue_payload (IQueue ''Reply''))]"

definition scenario_props :: typeStepProps where
  "scenario_props = \<lparr> props_DeadLetterQueue = Some (IQueue ''Reply''), props_SeqConcurrency = None \<rparr>"



text \<open>
  The catch branches a dead-letter queue \<open>d\<close> asks for: on every invocation state, none
  when there is no queue, and with a queue \<open>q\<close> the single branch that sends the input to
  \<open>q\<close> and fails, with the error at \<open>$.error\<close>; through the sub-chains of the fan-out
  states. (\<^verbatim>\<open>AddCatch\<close> is called on invocation states only: no other state has a catch
  branch.)
\<close>

fun catch_ok :: "iqueue option \<Rightarrow> state \<Rightarrow> bool" where
  "catch_ok d (LambdaInvoke i p f cs) =
     (cs = (case d of
              None \<Rightarrow> []
            | Some q \<Rightarrow>
                [([SqsSendMessage (''Try'' @ function_id f) q ''$'',
                   FailState (''Err'' @ function_id f)], ''$.error'')]))"
| "catch_ok d (MapState i p n c) = (\<forall>s \<in> set c. catch_ok d s)"
| "catch_ok d _ = True"

definition chains_ok :: "(state \<Rightarrow> bool) \<Rightarrow> chain option list \<Rightarrow> bool" where
  "chains_ok P st = (\<forall>c \<in> set st. \<forall>s \<in> set (chain_of c). P s)"

text \<open>The chain of a state machine, and of the state machine a rule targets.\<close>

fun resource_chain :: "resource \<Rightarrow> chain" where
  "resource_chain (StateMachine c) = c"
| "resource_chain (Rule b pat r) = resource_chain r"

definition resources_ok :: "(state \<Rightarrow> bool) \<Rightarrow> resource list \<Rightarrow> bool" where
  "resources_ok P rs = (\<forall>r \<in> set rs. \<forall>s \<in> set (resource_chain r). P s)"

text \<open>
  The name the code derives for a fan-out: \<open>Seq\<close> and the first eight hexadecimal digits
  of the SHA-256 digest of the identifiers of the states of its sub-chain, one after the
  other. \<open>seq_named\<close>: a state that is a fan-out has that name, and so have the fan-outs of
  its sub-chain.
\<close>

definition chain_ids :: "chain \<Rightarrow> string" where
  "chain_ids c = concat (map state_id c)"

definition seq_name :: "chain \<Rightarrow> string" where
  "seq_name c = ''Seq'' @ take 8 (hex_EncodeToString (sha256_Sum256 (chain_ids c)))"

fun seq_named :: "state \<Rightarrow> bool" where
  "seq_named (MapState i p n c) = (i = seq_name c \<and> (\<forall>s \<in> set c. seq_named s))"
| "seq_named _ = True"

text \<open>
  The input path a node leaves for the node after it: the detail of the event after
  \<^verbatim>\<open>From\<close>, the payload of the invocation result after \<^verbatim>\<open>Map\<close>, the root after \<^verbatim>\<open>Seq\<close>; a
  \<^verbatim>\<open>Yield\<close> leaves the path it found.
\<close>

fun path_after :: "ast \<Rightarrow> string \<Rightarrow> string" where
  "path_after (AstFrom Type src) p = ''$.detail''"
| "path_after (AstMap F) p = ''$.Payload''"
| "path_after (AstSeq seq) p = ''$''"
| "path_after (AstYield Type tgt) p = p"





text \<open>
  A state without its catch branches, and two compiler states that differ in nothing
  but the catch branches of their states, the dead-letter queue and the resources
  created.
\<close>

fun strip :: "state \<Rightarrow> state" where
  "strip (LambdaInvoke i p f cs) = LambdaInvoke i p f []"
| "strip (MapState i p n c) = MapState i p n (map strip c)"
| "strip (SqsSendMessage i q b) = SqsSendMessage i q b"
| "strip (EventBridgePutEvents i d k s b) = EventBridgePutEvents i d k s b"
| "strip (FailState i) = FailState i"

definition alike :: "typeStep \<Rightarrow> typeStep \<Rightarrow> bool" where
  "alike ts1 ts2 =
     (map (map_option (map strip)) (stack ts1) = map (map_option (map strip)) (stack ts2) \<and>
      names ts1 = names ts2 \<and> args ts1 = args ts2 \<and> bus ts1 = bus ts2 \<and>
      eventPattern ts1 = eventPattern ts2)"

text \<open>The catch branches.\<close>

definition catch_inv :: "iqueue option \<Rightarrow> typeStep \<Rightarrow> bool" where
  "catch_inv d ts =
     (DeadLetterQueue ts = d \<and> chains_ok (catch_ok d) (stack ts) \<and>
      resources_ok (catch_ok d) (resources ts))"

text \<open>The names.\<close>

definition names_inv :: "typeStep \<Rightarrow> bool" where
  "names_inv ts =
     (names ts = map (\<lambda>c. chain_ids (chain_of c)) (stack ts) \<and>
      chains_ok seq_named (stack ts) \<and> resources_ok seq_named (resources ts))"


section \<open>The callbacks, one at a time\<close>

lemma run_append:
  "run (xs @ ys) ts =
     (case run xs ts of (ts', None) \<Rightarrow> run ys ts' | (ts', Some e) \<Rightarrow> (ts', Some e))"
  by (induction xs arbitrary: ts) (auto split: prod.splits option.splits)

lemma run_append_ok:
  "run xs ts = (ts1, None) \<Longrightarrow> run (xs @ ys) ts = run ys ts1"
  by (simp add: run_append)

lemma run_append_err:
  "run xs ts = (ts1, Some e) \<Longrightarrow> run (xs @ ys) ts = (ts1, Some e)"
  by (simp add: run_append)

lemma run_append_None:
  "run (xs @ ys) ts = (ts2, None) \<Longrightarrow> \<exists>ts1. run xs ts = (ts1, None) \<and> run ys ts1 = (ts2, None)"
  by (cases "run xs ts") (auto simp: run_append split: option.splits)

lemma ts_append_snoc:
  assumes "stack ts = st @ [tp]" "names ts = ns @ [nm]" "length ns = length st"
  shows "ts_append f ts =
    (ts\<lparr> stack := st @ [Some (chain_of tp @ [f])], names := ns @ [nm @ state_id f] \<rparr>, None)"
proof -
  have c: "(case tp of None \<Rightarrow> Some [f] | Some c \<Rightarrow> Some (c @ [f])) = Some (chain_of tp @ [f])"
    by (cases tp) simp_all
  have n1: "(st @ [tp]) ! length st = tp" by simp
  have n2: "(ns @ [nm]) ! length st = nm" using assms(3) by (metis nth_append_length)
  have u2: "(ns @ [nm])[length st := x] = ns @ [x]" for x
    using assms(3) by (metis list_update_length)
  show ?thesis
    using assms(3) by (simp add: ts_append_def Let_def assms(1,2) c n2 u2)
qed

lemma OnLeaveSeq_snoc:
  assumes "stack ts = st @ [p, Some c]" "names ts = ns @ [pn, nm]" "length ns = length st"
  shows "OnLeaveSeq (n # rest) ts =
    (ts\<lparr> stack := st @ [Some (chain_of p @
                 [MapState (''Seq'' @ take 8 (hex_EncodeToString (sha256_Sum256 nm))) ''$.Payload''
                    (case n of AstMap (Lambda l) \<Rightarrow> concurency l | _ \<Rightarrow> 1) c])],
          names := ns @ [pn @ ''Seq'' @ take 8 (hex_EncodeToString (sha256_Sum256 nm))],
          args := ''$'' \<rparr>, None)"
proof -
  let ?f = "MapState (''Seq'' @ take 8 (hex_EncodeToString (sha256_Sum256 nm))) ''$.Payload''
                    (case n of AstMap (Lambda l) \<Rightarrow> concurency l | _ \<Rightarrow> 1) c"
  let ?ts2 = "ts\<lparr> stack := st @ [p], names := ns @ [pn] \<rparr>"
  have app: "ts_append ?f ?ts2 =
      (?ts2\<lparr> stack := st @ [Some (chain_of p @ [?f])], names := ns @ [pn @ state_id ?f] \<rparr>, None)"
    by (rule ts_append_snoc) (simp_all add: assms(3))
  have n1: "stack ts ! (length (stack ts) - Suc 0) = Some c"
    by (simp add: assms(1) nth_append)
  have n2: "names ts ! (length (stack ts) - Suc 0) = nm"
    by (simp add: assms nth_append)
  have t1: "take (length (stack ts) - Suc 0) (stack ts) = st @ [p]"
    by (simp add: assms(1))
  have t2: "take (length (stack ts) - Suc 0) (names ts) = ns @ [pn]"
    by (simp add: assms)
  have ne: "stack ts \<noteq> []" by (simp add: assms(1))
  have le: "\<not> length (names ts) \<le> length (stack ts) - Suc 0"
    by (simp add: assms)
  show ?thesis
    using app by (simp add: OnLeaveSeq_def Let_def ne le n1 n2 t1 t2)
qed

lemma always_Nil [simp]: "always Q [] ts = Q ts"
  by (simp add: always_def)

lemma always_Cons:
  "always Q (e # es) ts =
     (Q ts \<and> (case dispatch e ts of (ts', None) \<Rightarrow> always Q es ts' | (ts', Some err) \<Rightarrow> Q ts'))"
proof
  assume a: "always Q (e # es) ts"
  have q0: "Q ts" using a[unfolded always_def, rule_format, of 0] by simp
  have step: "Q (fst (run (e # take m es) ts))" for m
    using a[unfolded always_def, rule_format, of "Suc m"] by simp
  show "Q ts \<and> (case dispatch e ts of (ts', None) \<Rightarrow> always Q es ts' | (ts', Some err) \<Rightarrow> Q ts')"
  proof (cases "dispatch e ts")
    case (Pair ts' r)
    show ?thesis
    proof (cases r)
      case None
      with Pair step have "Q (fst (run (take m es) ts'))" for m by simp
      with q0 Pair None show ?thesis by (simp add: always_def)
    next
      case (Some err)
      with Pair step[of 0] q0 show ?thesis by simp
    qed
  qed
next
  assume r: "Q ts \<and> (case dispatch e ts of (ts', None) \<Rightarrow> always Q es ts' | (ts', Some err) \<Rightarrow> Q ts')"
  show "always Q (e # es) ts"
    unfolding always_def
  proof
    fix n
    show "Q (fst (run (take n (e # es)) ts))"
    proof (cases n)
      case 0
      with r show ?thesis by simp
    next
      case (Suc m)
      with r show ?thesis
        by (cases "dispatch e ts") (auto simp: always_def split: option.splits)
    qed
  qed
qed

lemma always_append:
  "always Q (xs @ ys) ts =
     (always Q xs ts \<and> (case run xs ts of (ts', None) \<Rightarrow> always Q ys ts' | (ts', Some err) \<Rightarrow> True))"
proof (induction xs arbitrary: ts)
  case Nil
  show ?case by (auto simp: always_def dest: spec[of _ 0])
next
  case (Cons e xs)
  show ?case
    by (cases "dispatch e ts") (auto simp: always_Cons Cons.IH split: option.splits)
qed

lemma always_mono: "(\<And>s. P s \<Longrightarrow> Q s) \<Longrightarrow> always P es ts \<Longrightarrow> always Q es ts"
  by (simp add: always_def)

lemma always_last: "always Q es ts \<Longrightarrow> Q (fst (run es ts))"
  unfolding always_def by (drule spec[of _ "length es"]) simp

lemma lvl_above: "lvl st ns ts \<Longrightarrow> at_least st ns ts"
  unfolding lvl_def at_least_def by fastforce

lemma above_snoc: "at_least (st @ [tp]) (ns @ [nm]) ts \<Longrightarrow> at_least st ns ts"
  unfolding at_least_def by fastforce

lemma lvl_cong: "lvl st ns ts \<Longrightarrow> stack ts' = stack ts \<Longrightarrow> names ts' = names ts \<Longrightarrow> lvl st ns ts'"
  by (simp add: lvl_def)

lemma ts_append_lvl:
  assumes "lvl st ns ts"
  shows "\<exists>ts'. ts_append f ts = (ts', None) \<and> lvl st ns ts'"
proof -
  from assms obtain tp nm where s: "stack ts = st @ [tp]" and n: "names ts = ns @ [nm]"
    and l: "length ns = length st" by (auto simp: lvl_def)
  show ?thesis
    by (simp add: ts_append_snoc[OF s n l] lvl_def l)
qed

lemma ts_append_lvl_fst: "lvl st ns ts \<Longrightarrow> lvl st ns (fst (ts_append f ts))"
  using ts_append_lvl[of st ns ts f] by auto

lemma ts_append_lvl_snd: "lvl st ns ts \<Longrightarrow> snd (ts_append f ts) = None"
  using ts_append_lvl[of st ns ts f] by auto

lemma OnEnterMap_lvl: "lvl st ns ts \<Longrightarrow> lvl st ns (fst (OnEnterMap F ts))"
  by (cases F) (simp_all add: OnEnterMap_def Let_def ts_append_lvl_fst)

lemma OnEnterYield_lvl: "lvl st ns ts \<Longrightarrow> lvl st ns (fst (OnEnterYield Type tgt ts))"
  by (cases tgt) (simp_all add: OnEnterYield_def Let_def ts_append_lvl_fst)

lemma OnEnterFrom_lvl: "lvl st ns ts \<Longrightarrow> lvl st ns (fst (OnEnterFrom Type src ts))"
  by (cases src) (simp_all add: OnEnterFrom_def lvl_def)

lemma OnLeaveMap_lvl: "lvl st ns ts \<Longrightarrow> lvl st ns (fst (OnLeaveMap ts))"
  by (simp add: OnLeaveMap_def lvl_def)

lemma OnLeaveMorphism_lvl: "lvl st ns ts \<Longrightarrow> lvl st ns (fst (OnLeaveMorphism ts))"
  by (simp add: OnLeaveMorphism_def lvl_def Let_def split: option.splits)

lemma OnEnterSeq_lvl:
  assumes "lvl st ns ts"
  shows "\<exists>tp nm. lvl (st @ [tp]) (ns @ [nm]) (fst (OnEnterSeq ts)) \<and> snd (OnEnterSeq ts) = None"
  using assms by (auto simp: lvl_def OnEnterSeq_def)

lemma OnLeaveSeq_lvl:
  assumes "lvl (st @ [tp]) (ns @ [nm]) ts"
  shows "(snd (OnLeaveSeq seq ts) = None \<longrightarrow> lvl st ns (fst (OnLeaveSeq seq ts))) \<and>
         (snd (OnLeaveSeq seq ts) \<noteq> None \<longrightarrow> fst (OnLeaveSeq seq ts) = ts)"
proof -
  from assms obtain c0 n0 where s: "stack ts = st @ [tp, c0]" and n: "names ts = ns @ [nm, n0]"
    and l: "length ns = length st" by (auto simp: lvl_def)
  have ne: "stack ts \<noteq> []" by (simp add: s)
  have le: "\<not> length (names ts) \<le> length (stack ts) - Suc 0" by (simp add: s n l)
  show ?thesis
  proof (cases seq)
    case Nil
    then show ?thesis by (simp add: OnLeaveSeq_def Let_def ne le)
  next
    case (Cons a rest)
    show ?thesis
    proof (cases c0)
      case None
      have "stack ts ! (length (stack ts) - Suc 0) = None"
        by (simp add: s None nth_append)
      then show ?thesis by (simp add: OnLeaveSeq_def Let_def ne le Cons)
    next
      case (Some c)
      show ?thesis
        unfolding Cons using OnLeaveSeq_snoc[OF s[unfolded Some] n l, of a rest]
        by (simp add: lvl_def l)
    qed
  qed
qed

lemma bal_Nil: "lvl st ns ts \<Longrightarrow> bal st ns [] ts"
  by (simp add: bal_def lvl_above)

lemma bal_single:
  assumes "lvl st ns ts" "lvl st ns (fst (dispatch e ts))"
  shows "bal st ns [e] ts"
  using assms
  by (cases "dispatch e ts") (auto simp: bal_def always_Cons lvl_above split: option.splits)

lemma bal_append:
  assumes "bal st ns xs ts" and "\<And>ts1. run xs ts = (ts1, None) \<Longrightarrow> bal st ns ys ts1"
  shows "bal st ns (xs @ ys) ts"
proof (cases "run xs ts")
  case (Pair ts1 r)
  show ?thesis
  proof (cases r)
    case None
    with Pair assms(2) have "bal st ns ys ts1" by simp
    with assms(1) Pair None show ?thesis
      by (simp add: bal_def always_append run_append)
  next
    case (Some err)
    with Pair assms(1) show ?thesis
      by (simp add: bal_def always_append run_append)
  qed
qed

lemma bal_lvl: "bal st ns xs ts \<Longrightarrow> run xs ts = (ts', None) \<Longrightarrow> lvl st ns ts'"
  by (simp add: bal_def)

lemma bal_concat:
  "(\<And>x ts. x \<in> set seq \<Longrightarrow> lvl st ns ts \<Longrightarrow> bal st ns (trace x) ts) \<Longrightarrow>
   lvl st ns ts \<Longrightarrow> bal st ns (concat (map trace seq)) ts"
proof (induction seq arbitrary: ts)
  case Nil
  then show ?case by (simp add: bal_Nil)
next
  case (Cons a seq)
  have 1: "bal st ns (trace a) ts" using Cons.prems by simp
  have 2: "bal st ns (concat (map trace seq)) ts1" if "run (trace a) ts = (ts1, None)" for ts1
  proof (rule Cons.IH)
    show "lvl st ns ts1" using bal_lvl[OF 1 that] .
    show "\<And>x ts. x \<in> set seq \<Longrightarrow> lvl st ns ts \<Longrightarrow> bal st ns (trace x) ts"
      using Cons.prems(1) by simp
  qed
  show ?case using bal_append[OF 1 2] by simp
qed

lemma bal_pair:
  assumes "lvl st ns ts" "\<And>ts. lvl st ns ts \<Longrightarrow> lvl st ns (fst (dispatch e1 ts))"
    "\<And>ts. lvl st ns ts \<Longrightarrow> lvl st ns (fst (dispatch e2 ts))"
  shows "bal st ns [e1, e2] ts"
proof -
  have 1: "bal st ns [e1] ts" using assms(1,2) by (simp add: bal_single)
  have 2: "bal st ns [e2] ts1" if "run [e1] ts = (ts1, None)" for ts1
  proof -
    have "lvl st ns ts1" using bal_lvl[OF 1 that] .
    then show ?thesis using assms(3) by (simp add: bal_single)
  qed
  from bal_append[OF 1 2] show ?thesis by simp
qed

lemma bal_weaken: "bal (st @ [tp]) (ns @ [nm]) xs ts \<Longrightarrow> always (at_least st ns) xs ts"
proof -
  assume "bal (st @ [tp]) (ns @ [nm]) xs ts"
  then have "always (at_least (st @ [tp]) (ns @ [nm])) xs ts" by (simp add: bal_def)
  then show ?thesis by (rule always_mono[rotated]) (rule above_snoc)
qed

lemma trace_balanced: "lvl st ns ts \<Longrightarrow> bal st ns (trace a) ts"
proof (induction a arbitrary: st ns ts rule: trace.induct)
  case (1 Type src)
  show ?case unfolding trace.simps
    by (rule bal_pair[OF "1.prems"]) (simp_all add: OnEnterFrom_lvl OnLeaveFrom_def)
next
  case (2 F)
  show ?case unfolding trace.simps
    by (rule bal_pair[OF "2.prems"]) (simp_all add: OnEnterMap_lvl OnLeaveMap_lvl)
next
  case (4 Type tgt)
  show ?case unfolding trace.simps
    by (rule bal_pair[OF "4.prems"]) (simp_all add: OnEnterYield_lvl OnLeaveYield_def)
next
  case (3 seq)
  from OnEnterSeq_lvl[OF "3.prems"] obtain tp nm ts1
    where e: "OnEnterSeq ts = (ts1, None)" and l1: "lvl (st @ [tp]) (ns @ [nm]) ts1"
    by (cases "OnEnterSeq ts") auto
  have inner: "bal (st @ [tp]) (ns @ [nm]) (concat (map trace seq)) ts1"
    by (rule bal_concat[OF _ l1]) (rule "3.IH")
  have ch2: "always (at_least st ns) (concat (map trace seq)) ts1"
    using inner by (rule bal_weaken)
  have leave: "bal st ns [LeaveSeq seq] ts2" if r: "run (concat (map trace seq)) ts1 = (ts2, None)" for ts2
  proof -
    have l2: "lvl (st @ [tp]) (ns @ [nm]) ts2" using bal_lvl[OF inner r] .
    have ab2: "at_least st ns ts2" using above_snoc[OF lvl_above[OF l2]] .
    from OnLeaveSeq_lvl[OF l2, of seq] ab2 show ?thesis
      by (cases "OnLeaveSeq seq ts2") (auto simp: bal_def always_Cons lvl_above split: option.splits)
  qed
  have body: "bal st ns (concat (map trace seq) @ [LeaveSeq seq]) ts1"
  proof (cases "run (concat (map trace seq)) ts1")
    case (Pair ts2 r)
    show ?thesis
    proof (cases r)
      case None
      with Pair leave[of ts2] ch2 show ?thesis
        by (simp add: bal_def always_append run_append)
    next
      case (Some err)
      with Pair ch2 show ?thesis by (simp add: bal_def always_append run_append)
    qed
  qed
  show ?case
    using body e "3.prems" by (simp add: bal_def always_Cons lvl_above)
qed

section \<open>Balanced nesting\<close>

lemma lvl_NewTypeStep: "lvl [] [] (NewTypeStep props)"
  by (simp add: lvl_def NewTypeStep_def)

lemma bal_trace_morphism: "lvl st ns ts \<Longrightarrow> bal st ns (trace_morphism root) ts"
proof -
  assume l: "lvl st ns ts"
  have 1: "bal st ns [EnterMorphism] ts"
    using l by (simp add: bal_single OnEnterMorphism_def)
  have 2: "bal st ns (concat (map trace root)) ts1" if "lvl st ns ts1" for ts1
    using that by (intro bal_concat trace_balanced)
  have 3: "bal st ns [LeaveMorphism] ts2" if "lvl st ns ts2" for ts2
    using that by (simp add: bal_single OnLeaveMorphism_lvl)
  have 23: "bal st ns (concat (map trace root) @ [LeaveMorphism]) ts1" if l1: "lvl st ns ts1" for ts1
    by (rule bal_append[OF 2[OF l1]]) (rule 3, erule bal_lvl[OF 2[OF l1]])
  have "bal st ns ([EnterMorphism] @ concat (map trace root) @ [LeaveMorphism]) ts"
    by (rule bal_append[OF 1]) (rule 23, erule bal_lvl[OF 1])
  then show ?thesis by (simp add: trace_morphism_def)
qed

lemma at_least_empty_iff:
  "at_least [] [] ts = (stack ts \<noteq> [] \<and> length (names ts) = length (stack ts))"
  by (auto simp: at_least_def)

section \<open>What a callback leaves alone\<close>

lemma ts_append_frame:
  "ts_append f ts = (ts', r) \<Longrightarrow>
     resources ts' = resources ts \<and> DeadLetterQueue ts' = DeadLetterQueue ts \<and>
     bus ts' = bus ts \<and> eventPattern ts' = eventPattern ts \<and> args ts' = args ts"
  by (auto simp: ts_append_def Let_def split: if_splits)

lemma ts_append_frame_fst [simp]:
  "resources (fst (ts_append f ts)) = resources ts"
  "DeadLetterQueue (fst (ts_append f ts)) = DeadLetterQueue ts"
  "bus (fst (ts_append f ts)) = bus ts"
  "eventPattern (fst (ts_append f ts)) = eventPattern ts"
  "args (fst (ts_append f ts)) = args ts"
  using ts_append_frame[of f ts "fst (ts_append f ts)" "snd (ts_append f ts)"] by simp_all

lemma OnLeaveSeq_frame:
  "OnLeaveSeq seq ts = (ts', r) \<Longrightarrow>
     resources ts' = resources ts \<and> DeadLetterQueue ts' = DeadLetterQueue ts \<and>
     bus ts' = bus ts \<and> eventPattern ts' = eventPattern ts"
  by (auto simp: OnLeaveSeq_def Let_def split: if_splits list.splits option.splits prod.splits
      dest!: ts_append_frame)

lemma OnLeaveSeq_frame_fst [simp]:
  "resources (fst (OnLeaveSeq seq ts)) = resources ts"
  "DeadLetterQueue (fst (OnLeaveSeq seq ts)) = DeadLetterQueue ts"
  "bus (fst (OnLeaveSeq seq ts)) = bus ts"
  "eventPattern (fst (OnLeaveSeq seq ts)) = eventPattern ts"
  using OnLeaveSeq_frame[of seq ts "fst (OnLeaveSeq seq ts)" "snd (OnLeaveSeq seq ts)"] by simp_all

lemma OnEnterMap_frame_fst [simp]:
  "resources (fst (OnEnterMap F ts)) = resources ts"
  "DeadLetterQueue (fst (OnEnterMap F ts)) = DeadLetterQueue ts"
  "bus (fst (OnEnterMap F ts)) = bus ts"
  "eventPattern (fst (OnEnterMap F ts)) = eventPattern ts"
  by (simp_all add: OnEnterMap_def Let_def split: binding.splits)

lemma OnEnterYield_frame_fst [simp]:
  "resources (fst (OnEnterYield Type tgt ts)) = resources ts"
  "DeadLetterQueue (fst (OnEnterYield Type tgt ts)) = DeadLetterQueue ts"
  "bus (fst (OnEnterYield Type tgt ts)) = bus ts"
  "eventPattern (fst (OnEnterYield Type tgt ts)) = eventPattern ts"
  by (simp_all add: OnEnterYield_def Let_def split: target.splits)

lemma OnEnterFrom_frame_fst [simp]:
  "resources (fst (OnEnterFrom Type src ts)) = resources ts"
  "DeadLetterQueue (fst (OnEnterFrom Type src ts)) = DeadLetterQueue ts"
  by (simp_all add: OnEnterFrom_def split: origin.splits)

lemma OnLeaveMorphism_frame_fst [simp]:
  "DeadLetterQueue (fst (OnLeaveMorphism ts)) = DeadLetterQueue ts"
  "bus (fst (OnLeaveMorphism ts)) = bus ts"
  "eventPattern (fst (OnLeaveMorphism ts)) = eventPattern ts"
  by (simp_all add: OnLeaveMorphism_def Let_def split: option.splits)

lemma OnLeaveMorphism_error:
  "snd (OnLeaveMorphism ts) \<noteq> None \<Longrightarrow> fst (OnLeaveMorphism ts) = ts"
  by (simp add: OnLeaveMorphism_def Let_def split: option.splits if_splits)

lemma dispatch_DeadLetterQueue [simp]:
  "DeadLetterQueue (fst (dispatch e ts)) = DeadLetterQueue ts"
  by (cases e) (simp_all add: OnEnterMorphism_def OnEnterSeq_def OnLeaveMap_def OnLeaveFrom_def
      OnLeaveYield_def)

lemma dispatch_resources:
  "e \<noteq> LeaveMorphism \<Longrightarrow> resources (fst (dispatch e ts)) = resources ts"
  by (cases e) (simp_all add: OnEnterMorphism_def OnEnterSeq_def OnLeaveMap_def OnLeaveFrom_def
      OnLeaveYield_def)

lemma dispatch_source:
  "\<not> is_EnterFrom e \<Longrightarrow>
     bus (fst (dispatch e ts)) = bus ts \<and> eventPattern (fst (dispatch e ts)) = eventPattern ts"
  by (cases e) (simp_all add: OnEnterMorphism_def OnEnterSeq_def OnLeaveMap_def OnLeaveFrom_def
      OnLeaveYield_def)

lemma run_DeadLetterQueue [simp]:
  "DeadLetterQueue (fst (run es ts)) = DeadLetterQueue ts"
proof (induction es arbitrary: ts)
  case Nil
  show ?case by simp
next
  case (Cons e es)
  obtain ts1 r where d: "dispatch e ts = (ts1, r)" by (cases "dispatch e ts")
  have "DeadLetterQueue ts1 = DeadLetterQueue ts"
    using dispatch_DeadLetterQueue[of e ts] d by simp
  then show ?case using d Cons.IH[of ts1] by (cases r) simp_all
qed

lemma run_resources:
  "LeaveMorphism \<notin> set es \<Longrightarrow> resources (fst (run es ts)) = resources ts"
proof (induction es arbitrary: ts)
  case Nil
  show ?case by simp
next
  case (Cons e es)
  obtain ts1 r where d: "dispatch e ts = (ts1, r)" by (cases "dispatch e ts")
  have "resources ts1 = resources ts"
    using dispatch_resources[of e ts] d Cons.prems by auto
  then show ?case using d Cons.IH[of ts1] Cons.prems by (cases r) simp_all
qed

lemma run_source:
  "\<forall>e \<in> set es. \<not> is_EnterFrom e \<Longrightarrow>
     bus (fst (run es ts)) = bus ts \<and> eventPattern (fst (run es ts)) = eventPattern ts"
proof (induction es arbitrary: ts)
  case Nil
  show ?case by simp
next
  case (Cons e es)
  obtain ts1 r where d: "dispatch e ts = (ts1, r)" by (cases "dispatch e ts")
  have "bus ts1 = bus ts \<and> eventPattern ts1 = eventPattern ts"
    using dispatch_source[of e ts] d Cons.prems by auto
  then show ?case using d Cons.IH[of ts1] Cons.prems by (cases r) simp_all
qed

lemma trace_no_LeaveMorphism: "LeaveMorphism \<notin> set (trace a)"
  by (induction a rule: trace.induct) auto

lemma traces_no_LeaveMorphism: "LeaveMorphism \<notin> set (concat (map trace root))"
  using trace_no_LeaveMorphism by auto

lemma trace_no_EnterFrom: "\<not> has_from a \<Longrightarrow> \<forall>e \<in> set (trace a). \<not> is_EnterFrom e"
  by (induction a rule: trace.induct) auto

lemma traces_no_EnterFrom:
  "\<forall>a \<in> set root. \<not> has_from a \<Longrightarrow> \<forall>e \<in> set (concat (map trace root)). \<not> is_EnterFrom e"
  using trace_no_EnterFrom by auto

lemma trace_unrecognised: "\<not> recognised a \<Longrightarrow> \<exists>e \<in> set (trace a). unrecognised_event e"
  by (induction a rule: recognised.induct) (simp_all, blast)

lemma unrecognised_event_aborts:
  "unrecognised_event e \<Longrightarrow> snd (dispatch e ts) \<noteq> None \<and> fst (dispatch e ts) = ts"
  by (induction e rule: unrecognised_event.induct)
     (simp_all add: OnEnterFrom_def OnEnterMap_def OnEnterYield_def)

lemma run_unrecognised:
  "\<exists>e \<in> set es. unrecognised_event e \<Longrightarrow> snd (run es ts) \<noteq> None"
proof (induction es arbitrary: ts)
  case Nil
  then show ?case by simp
next
  case (Cons e es)
  obtain ts1 r where d: "dispatch e ts = (ts1, r)" by (cases "dispatch e ts")
  show ?case
  proof (cases r)
    case None
    then have "\<not> unrecognised_event e" using unrecognised_event_aborts[of e ts] d by auto
    then have "\<exists>e \<in> set es. unrecognised_event e" using Cons.prems by auto
    then show ?thesis using Cons.IH[of ts1] d None by simp
  next
    case (Some err)
    then show ?thesis using d by simp
  qed
qed

text \<open>A traversal is the run of the chain, then \<^verbatim>\<open>OnLeaveMorphism\<close>.\<close>

lemma Apply_split:
  "Apply root ts =
     (case run (concat (map trace root)) ts of
        (ts1, None) \<Rightarrow> OnLeaveMorphism ts1
      | (ts1, Some e) \<Rightarrow> (ts1, Some e))"
proof -
  have "Apply root ts = run (concat (map trace root) @ [LeaveMorphism]) ts"
    by (simp add: Apply_def trace_morphism_def OnEnterMorphism_def)
  also have "\<dots> = (case run (concat (map trace root)) ts of
        (ts1, None) \<Rightarrow> run [LeaveMorphism] ts1
      | (ts1, Some e) \<Rightarrow> (ts1, Some e))"
    by (rule run_append)
  also have "\<dots> = (case run (concat (map trace root)) ts of
        (ts1, None) \<Rightarrow> OnLeaveMorphism ts1
      | (ts1, Some e) \<Rightarrow> (ts1, Some e))"
    by (auto split: prod.splits option.splits)
  finally show ?thesis .
qed

lemma Apply_error_resources:
  "snd (Apply root ts) \<noteq> None \<Longrightarrow> resources (fst (Apply root ts)) = resources ts"
proof -
  assume e: "snd (Apply root ts) \<noteq> None"
  obtain ts1 r where b: "run (concat (map trace root)) ts = (ts1, r)"
    by (cases "run (concat (map trace root)) ts")
  have r1: "resources ts1 = resources ts"
    using run_resources[OF traces_no_LeaveMorphism, of root ts] b by simp
  show ?thesis
  proof (cases r)
    case None
    then have a: "Apply root ts = OnLeaveMorphism ts1" using b by (simp add: Apply_split)
    then have "fst (OnLeaveMorphism ts1) = ts1" using e by (simp add: OnLeaveMorphism_error)
    then show ?thesis using a r1 by simp
  next
    case (Some err)
    then show ?thesis using b r1 by (simp add: Apply_split)
  qed
qed

section \<open>Push and pop\<close>

lemma ts_append_last:
  assumes "stack ts \<noteq> []" "length (names ts) = length (stack ts)"
  shows "ts_append f ts =
    (ts\<lparr> stack := butlast (stack ts) @ [Some (chain_of (last (stack ts)) @ [f])],
          names := butlast (names ts) @ [last (names ts) @ state_id f] \<rparr>, None)"
proof -
  from assms have n: "names ts \<noteq> []" by auto
  have s1: "stack ts = butlast (stack ts) @ [last (stack ts)]" using assms(1) by simp
  have n1: "names ts = butlast (names ts) @ [last (names ts)]" using n by simp
  have l: "length (butlast (names ts)) = length (butlast (stack ts))" using assms(2) by simp
  show ?thesis by (rule ts_append_snoc[OF s1 n1 l])
qed

lemma ts_append_empty:
  "stack ts = [] \<Longrightarrow> ts_append f ts = (ts, Some (Panic ''index out of range [-1]''))"
  by (simp add: ts_append_def)

lemma OnLeaveSeq_Some:
  assumes "stack ts \<noteq> []" "\<not> length (names ts) \<le> length (stack ts) - Suc 0"
    "stack ts ! (length (stack ts) - Suc 0) = Some c0"
  shows "OnLeaveSeq (a # rest) ts =
    (case ts_append
        (MapState (''Seq'' @ take 8 (hex_EncodeToString
            (sha256_Sum256 (names ts ! (length (stack ts) - Suc 0)))))
          ''$.Payload'' (case a of AstMap (Lambda l) \<Rightarrow> concurency l | _ \<Rightarrow> 1) c0)
        (ts\<lparr> stack := take (length (stack ts) - Suc 0) (stack ts),
              names := take (length (stack ts) - Suc 0) (names ts) \<rparr>) of
       (ts3, Some e) \<Rightarrow> (ts3, Some e)
     | (ts3, None) \<Rightarrow> (ts3\<lparr> args := ''$'' \<rparr>, None))"
  using assms by (simp add: OnLeaveSeq_def Let_def)

lemma OnLeaveSeq_pop:
  assumes ne: "stack ts \<noteq> []" and len: "length (names ts) = length (stack ts)"
    and ok: "OnLeaveSeq seq ts = (ts', None)"
  shows "2 \<le> length (stack ts) \<and> seq \<noteq> [] \<and>
     stack ts' = butlast (butlast (stack ts)) @
        [Some (chain_of (last (butlast (stack ts))) @
           [MapState (''Seq'' @ take 8 (hex_EncodeToString (sha256_Sum256 (last (names ts)))))
              ''$.Payload'' (case hd seq of AstMap (Lambda l) \<Rightarrow> concurency l | _ \<Rightarrow> 1)
              (chain_of (last (stack ts)))])] \<and>
     names ts' = butlast (butlast (names ts)) @
        [last (butlast (names ts)) @
           ''Seq'' @ take 8 (hex_EncodeToString (sha256_Sum256 (last (names ts))))]"
proof -
  have le: "\<not> length (names ts) \<le> length (stack ts) - Suc 0" using ne len by (cases "stack ts") simp_all
  from ok have seq: "seq \<noteq> []"
    by (auto simp: OnLeaveSeq_def Let_def ne le)
  then obtain a rest where c: "seq = a # rest" by (cases seq) auto
  have top: "stack ts ! (length (stack ts) - Suc 0) = last (stack ts)"
    using ne by (simp add: last_conv_nth)
  from ok obtain c0 where tp: "last (stack ts) = Some c0"
    by (cases "last (stack ts)") (auto simp: OnLeaveSeq_def Let_def ne le c top)
  have two: "2 \<le> length (stack ts)"
  proof (rule ccontr)
    assume "\<not> 2 \<le> length (stack ts)"
    moreover have "length (stack ts) \<noteq> 0" using ne by simp
    ultimately have "length (stack ts) = 1" by arith
    then have e: "take (length (stack ts) - Suc 0) (stack ts) = []" by simp
    have "snd (OnLeaveSeq (a # rest) ts) \<noteq> None"
      unfolding OnLeaveSeq_Some[OF ne le top[unfolded tp]]
      by (subst ts_append_empty) (simp_all add: e)
    then show False using ok c by simp
  qed
  let ?st = "butlast (butlast (stack ts))" and ?ns = "butlast (butlast (names ts))"
  have b1: "butlast (stack ts) \<noteq> []" using two by (cases "stack ts" rule: rev_cases) auto
  have b2: "butlast (names ts) \<noteq> []" using two len by (cases "names ts" rule: rev_cases) auto
  have s: "stack ts = ?st @ [last (butlast (stack ts)), Some c0]"
    using ne b1 tp by (metis append_butlast_last_id append_Cons append_Nil append_assoc)
  have nn: "names ts \<noteq> []" using ne len by auto
  have n: "names ts = ?ns @ [last (butlast (names ts)), last (names ts)]"
    using nn b2 by (metis append_butlast_last_id append_Cons append_Nil append_assoc)
  have l: "length ?ns = length ?st" using len by simp
  have "OnLeaveSeq (a # rest) ts = (ts', None)" using ok c by simp
  then show ?thesis
    unfolding OnLeaveSeq_snoc[OF s n l, of a rest] using two seq c tp by auto
qed

lemma reachable_at_least:
  "at_least [] [] (fst (run (take n (trace_morphism root)) (NewTypeStep props)))"
proof -
  have "always (at_least [] []) (trace_morphism root) (NewTypeStep props)"
    using bal_trace_morphism[OF lvl_NewTypeStep] by (simp add: bal_def)
  then show ?thesis by (simp add: always_def)
qed
text \<open>The definitions the simplifier unfolds to run the callbacks on a concrete pipeline.
  The digest is left as it stands.\<close>

lemmas run_defs = trace_morphism_def NewTypeStep_def
  OnEnterMorphism_def OnLeaveMorphism_def OnEnterFrom_def OnLeaveFrom_def OnEnterMap_def
  OnLeaveMap_def OnEnterSeq_def OnLeaveSeq_def OnEnterYield_def OnLeaveYield_def ts_append_def
  Let_def From_payload_def Join_payload_def Lift_payload_def LiftP_payload_def
  ToQueue_payload_def ToEventBus_payload_def

section \<open>The end of a traversal\<close>

lemma OnLeaveMorphism_ok:
  "OnLeaveMorphism ts = (ts', None) \<Longrightarrow>
     \<exists>b c. bus ts = Some b \<and> stack ts = [Some c] \<and>
       ts' = ts\<lparr> resources := resources ts @
                [StateMachine c, Rule b (eventPattern ts) (StateMachine c)] \<rparr>"
proof -
  assume ok: "OnLeaveMorphism ts = (ts', None)"
  then have l: "length (stack ts) = 1"
    by (auto simp: OnLeaveMorphism_def split: if_splits)
  then obtain tp where s: "stack ts = [tp]"
    by (cases "stack ts") auto
  from ok l obtain b where b: "bus ts = Some b"
    by (cases "bus ts") (auto simp: OnLeaveMorphism_def)
  from ok l b s obtain c where c: "tp = Some c"
    by (cases tp) (auto simp: OnLeaveMorphism_def)
  from ok l b s c have "ts' = ts\<lparr> resources := resources ts @
                [StateMachine c, Rule b (eventPattern ts) (StateMachine c)] \<rparr>"
    by (auto simp: OnLeaveMorphism_def Let_def)
  then show ?thesis using b s c by blast
qed

lemma Apply_ok:
  assumes "Apply root ts = (ts', None)"
  shows "\<exists>ts1 b c. run (concat (map trace root)) ts = (ts1, None) \<and>
           bus ts1 = Some b \<and> stack ts1 = [Some c] \<and>
           ts' = ts1\<lparr> resources := resources ts @
                    [StateMachine c, Rule b (eventPattern ts1) (StateMachine c)] \<rparr>"
proof -
  obtain ts1 r where b: "run (concat (map trace root)) ts = (ts1, r)"
    by (cases "run (concat (map trace root)) ts")
  have r: "r = None" using assms b by (cases r) (simp_all add: Apply_split)
  then have "OnLeaveMorphism ts1 = (ts', None)" using assms b by (simp add: Apply_split)
  from OnLeaveMorphism_ok[OF this] obtain bb c where
    x: "bus ts1 = Some bb" "stack ts1 = [Some c]"
       "ts' = ts1\<lparr> resources := resources ts1 @
                [StateMachine c, Rule bb (eventPattern ts1) (StateMachine c)] \<rparr>"
    by blast
  have "resources ts1 = resources ts"
    using run_resources[OF traces_no_LeaveMorphism, of root ts] b by simp
  then show ?thesis using b r x by auto
qed

lemma run_From:
  "run (trace (AstFrom Type (From_payload b cat))) ts =
     (ts\<lparr> bus := b, eventPattern := Some (if cat = [] then [Type] else cat),
          args := ''$.detail'' \<rparr>, None)"
  by (simp add: OnEnterFrom_def OnLeaveFrom_def From_payload_def)

lemma Apply_abort:
  assumes "run (concat (map trace pre)) ts = (ts1, None)" "dispatch e ts1 = (ts2, Some err)"
    "trace a = e # es"
  shows "Apply (pre @ a # rest) ts = (ts2, Some err)"
proof -
  have "concat (map trace (pre @ a # rest)) =
      concat (map trace pre) @ (e # es @ concat (map trace rest))"
    by (simp add: assms(3))
  then have "run (concat (map trace (pre @ a # rest))) ts =
      run (e # es @ concat (map trace rest)) ts1"
    using run_append_ok[OF assms(1)] by simp
  also have "\<dots> = (ts2, Some err)" by (simp add: assms(2))
  finally show ?thesis by (simp add: Apply_split)
qed

lemma traces_unrecognised:
  "\<exists>a \<in> set root. \<not> recognised a \<Longrightarrow> \<exists>e \<in> set (trace_morphism root). unrecognised_event e"
  using trace_unrecognised by (fastforce simp: trace_morphism_def)

lemma run_traces_resources:
  "run (concat (map trace pre)) ts = (ts1, r) \<Longrightarrow> resources ts1 = resources ts"
  using run_resources[OF traces_no_LeaveMorphism, of pre ts] by simp

lemma run_traces_lvl:
  "lvl st ns ts \<Longrightarrow> run (concat (map trace root)) ts = (ts1, None) \<Longrightarrow> lvl st ns ts1"
  using bal_concat[of root st ns ts, OF trace_balanced] by (auto simp: bal_def)

lemma lvl_one: "lvl [] [] ts \<Longrightarrow> length (stack ts) = 1"
  by (auto simp: lvl_def)

section \<open>One node\<close>

lemma lvl_butlast:
  "stack ts \<noteq> [] \<Longrightarrow> length (names ts) = length (stack ts) \<Longrightarrow>
     lvl (butlast (stack ts)) (butlast (names ts)) ts"
proof -
  assume a: "stack ts \<noteq> []" and b: "length (names ts) = length (stack ts)"
  then have n: "names ts \<noteq> []" by auto
  have "stack ts = butlast (stack ts) @ [last (stack ts)]" using a by simp
  moreover have "names ts = butlast (names ts) @ [last (names ts)]" using n by simp
  moreover have "length (butlast (names ts)) = length (butlast (stack ts))" using b by simp
  ultimately show ?thesis unfolding lvl_def by blast
qed

lemma lvl_wf: "lvl st ns ts \<Longrightarrow> stack ts \<noteq> [] \<and> length (names ts) = length (stack ts)"
  by (auto simp: lvl_def)

lemma lvl_stack: "lvl st ns ts \<Longrightarrow> st = butlast (stack ts) \<and> ns = butlast (names ts)"
  by (auto simp: lvl_def)

lemma run_trace_lvl:
  "lvl st ns ts \<Longrightarrow> run (trace a) ts = (ts', None) \<Longrightarrow> lvl st ns ts'"
  using trace_balanced[of st ns ts a] by (auto simp: bal_def)

text \<open>A \<^verbatim>\<open>Seq\<close> node: the callbacks of its chain run one level up; \<^verbatim>\<open>OnLeaveSeq\<close> ends it.\<close>

lemma run_Seq_split:
  "run (trace (AstSeq seq)) ts =
     (case run (EnterSeq seq # concat (map trace seq)) ts of
        (ts1, None) \<Rightarrow> OnLeaveSeq seq ts1
      | (ts1, Some e) \<Rightarrow> (ts1, Some e))"
proof -
  have "trace (AstSeq seq) = (EnterSeq seq # concat (map trace seq)) @ [LeaveSeq seq]" by simp
  then have "run (trace (AstSeq seq)) ts =
      (case run (EnterSeq seq # concat (map trace seq)) ts of
        (ts1, None) \<Rightarrow> run [LeaveSeq seq] ts1
      | (ts1, Some e) \<Rightarrow> (ts1, Some e))"
    by (simp only: run_append)
  also have "\<dots> = (case run (EnterSeq seq # concat (map trace seq)) ts of
        (ts1, None) \<Rightarrow> OnLeaveSeq seq ts1
      | (ts1, Some e) \<Rightarrow> (ts1, Some e))"
    by (auto split: prod.splits option.splits)
  finally show ?thesis .
qed

lemma run_Seq_body:
  assumes "stack ts \<noteq> []" "length (names ts) = length (stack ts)"
    and "run (EnterSeq seq # concat (map trace seq)) ts = (ts1, None)"
  shows "lvl (stack ts) (names ts) ts1"
proof -
  let ?ts0 = "ts\<lparr> stack := stack ts @ [None], names := names ts @ [''''], args := ''$'' \<rparr>"
  have r: "run (concat (map trace seq)) ?ts0 = (ts1, None)"
    using assms(3) by (simp add: OnEnterSeq_def)
  have "lvl (stack ts) (names ts) ?ts0" using assms(2) by (simp add: lvl_def)
  then show ?thesis using r by (rule run_traces_lvl)
qed

lemma run_Seq_None:
  assumes "run (trace (AstSeq seq)) ts = (ts', None)"
  shows "\<exists>ts1. run (EnterSeq seq # concat (map trace seq)) ts = (ts1, None) \<and>
           OnLeaveSeq seq ts1 = (ts', None)"
proof -
  obtain ts1 r where b: "run (EnterSeq seq # concat (map trace seq)) ts = (ts1, r)"
    by (cases "run (EnterSeq seq # concat (map trace seq)) ts")
  have "r = None" using assms b unfolding run_Seq_split by (cases r) simp_all
  then show ?thesis using assms b unfolding run_Seq_split by simp
qed

lemma OnLeaveSeq_lvl2:
  assumes "stack ts \<noteq> []" "length (names ts) = length (stack ts)"
    and l: "lvl (stack ts) (names ts) ts1" and c: "last (stack ts1) = Some c"
  shows "OnLeaveSeq (a # rest) ts1 =
    (ts1\<lparr> stack := butlast (stack ts) @ [Some (chain_of (last (stack ts)) @
              [MapState (''Seq'' @ take 8 (hex_EncodeToString (sha256_Sum256 (last (names ts1)))))
                 ''$.Payload'' (case a of AstMap (Lambda l) \<Rightarrow> concurency l | _ \<Rightarrow> 1) c])],
           names := butlast (names ts) @
              [last (names ts) @ ''Seq'' @ take 8 (hex_EncodeToString (sha256_Sum256 (last (names ts1))))],
           args := ''$'' \<rparr>, None)"
proof -
  from l obtain tp nm where s1: "stack ts1 = stack ts @ [tp]" and n1: "names ts1 = names ts @ [nm]"
    by (auto simp: lvl_def)
  have tp: "tp = Some c" using c s1 by simp
  have nm: "last (names ts1) = nm" using n1 by simp
  have nn: "names ts \<noteq> []" using assms(1,2) by auto
  have s: "stack ts1 = butlast (stack ts) @ [last (stack ts), Some c]"
    using s1 tp assms(1) by simp
  have n: "names ts1 = butlast (names ts) @ [last (names ts), nm]"
    using n1 nn by simp
  have len: "length (butlast (names ts)) = length (butlast (stack ts))" using assms(2) by simp
  show ?thesis unfolding nm by (rule OnLeaveSeq_snoc[OF s n len])
qed



section \<open>Levels that hold a chain\<close>





section \<open>A chain grows at its end\<close>

lemma node_extends:
  assumes l: "lvl st ns ts" and r: "run (trace a) ts = (ts', None)"
  shows "\<exists>ext. chain_of (last (stack ts')) = chain_of (last (stack ts)) @ ext"
proof (cases a)
  case (AstFrom Type src)
  then have "stack ts' = stack ts"
    using r by (cases src) (auto simp: OnEnterFrom_def OnLeaveFrom_def)
  then show ?thesis by simp
next
  case (AstMap F)
  note w = lvl_wf[OF l]
  show ?thesis
  proof (cases F)
    case (Lambda lam)
    have "stack ts' = stack (fst (OnEnterMap F ts))"
      using r AstMap by (auto simp: OnLeaveMap_def split: prod.splits option.splits)
    then show ?thesis
      using w by (simp add: OnEnterMap_def Lambda Let_def ts_append_last)
  next
    case (OtherBinding T)
    then show ?thesis using r AstMap by (simp add: OnEnterMap_def)
  qed
next
  case (AstSeq seq)
  note w = lvl_wf[OF l]
  from run_Seq_None[OF r[unfolded AstSeq]] obtain ts1 where
    b: "run (EnterSeq seq # concat (map trace seq)) ts = (ts1, None)"
    and o: "OnLeaveSeq seq ts1 = (ts', None)" by blast
  have l1: "lvl (stack ts) (names ts) ts1" using w b by (simp add: run_Seq_body)
  note w1 = lvl_wf[OF l1]
  have "butlast (stack ts1) = stack ts" using l1 by (auto simp: lvl_def)
  then show ?thesis
    using OnLeaveSeq_pop[OF w1[THEN conjunct1] w1[THEN conjunct2] o] by simp
next
  case (AstYield Type tgt)
  note w = lvl_wf[OF l]
  show ?thesis
  proof (cases tgt)
    case (Queue q)
    have "stack ts' = stack (fst (OnEnterYield Type tgt ts))"
      using r AstYield by (auto simp: OnLeaveYield_def split: prod.splits option.splits)
    then show ?thesis using w by (simp add: OnEnterYield_def Queue ts_append_last)
  next
    case (EventBus eb)
    have "stack ts' = stack (fst (OnEnterYield Type tgt ts))"
      using r AstYield by (auto simp: OnLeaveYield_def split: prod.splits option.splits)
    then show ?thesis using w by (simp add: OnEnterYield_def EventBus Let_def ts_append_last)
  next
    case (OtherTarget T)
    then show ?thesis using r AstYield by (simp add: OnEnterYield_def)
  qed
qed

lemma nodes_extend:
  "lvl st ns ts \<Longrightarrow> run (concat (map trace seq)) ts = (ts', None) \<Longrightarrow>
     \<exists>ext. chain_of (last (stack ts')) = chain_of (last (stack ts)) @ ext"
proof (induction seq arbitrary: ts)
  case Nil
  then show ?case by simp
next
  case (Cons a seq)
  from Cons.prems(2) have "run (trace a @ concat (map trace seq)) ts = (ts', None)" by simp
  from run_append_None[OF this] obtain ts1 where
    r1: "run (trace a) ts = (ts1, None)" and r2: "run (concat (map trace seq)) ts1 = (ts', None)"
    by blast
  have l1: "lvl st ns ts1" by (rule run_trace_lvl[OF Cons.prems(1) r1])
  from node_extends[OF Cons.prems(1) r1] obtain e1 where
    "chain_of (last (stack ts1)) = chain_of (last (stack ts)) @ e1" by blast
  moreover from Cons.IH[OF l1 r2] obtain e2 where
    "chain_of (last (stack ts')) = chain_of (last (stack ts1)) @ e2" by blast
  ultimately have "chain_of (last (stack ts')) = chain_of (last (stack ts)) @ (e1 @ e2)" by simp
  then show ?case by blast
qed

lemma run_Map:
  assumes "stack ts \<noteq> []" "length (names ts) = length (stack ts)"
  shows "run (trace (AstMap (Lambda l))) ts =
    (ts\<lparr> stack := butlast (stack ts) @ [Some (chain_of (last (stack ts)) @
             [LambdaInvoke (''Map'' @ function_id (lambda_f l)) (args ts) (lambda_f l)
                (case DeadLetterQueue ts of
                   None \<Rightarrow> []
                 | Some q \<Rightarrow>
                     [([SqsSendMessage (''Try'' @ function_id (lambda_f l)) q ''$'',
                        FailState (''Err'' @ function_id (lambda_f l))], ''$.error'')])])],
          names := butlast (names ts) @ [last (names ts) @ ''Map'' @ function_id (lambda_f l)],
          args := ''$.Payload'' \<rparr>, None)"
  by (cases "DeadLetterQueue ts")
     (simp_all add: OnEnterMap_def OnLeaveMap_def Let_def ts_append_last[OF assms])

section \<open>Properties of every state of every chain\<close>

lemma chains_ok_take: "chains_ok P st \<Longrightarrow> chains_ok P (take n st)"
  by (auto simp: chains_ok_def dest: in_set_takeD)

lemma chains_ok_snoc: "chains_ok P (st @ [c]) = (chains_ok P st \<and> (\<forall>s \<in> set (chain_of c). P s))"
  by (auto simp: chains_ok_def)

lemma chains_ok_nth: "chains_ok P st \<Longrightarrow> i < length st \<Longrightarrow> \<forall>s \<in> set (chain_of (st ! i)). P s"
  by (auto simp: chains_ok_def)

lemma chains_ok_update:
  "chains_ok P st \<Longrightarrow> \<forall>s \<in> set (chain_of c). P s \<Longrightarrow> chains_ok P (st[i := c])"
  unfolding chains_ok_def using set_update_subset_insert[of st i c] by auto

lemma ts_append_chains_ok:
  assumes "chains_ok P (stack ts)" "P f"
  shows "chains_ok P (stack (fst (ts_append f ts)))"
proof (cases "stack ts = []")
  case True
  then show ?thesis using assms by (simp add: ts_append_def)
next
  case False
  let ?i = "length (stack ts) - 1"
  let ?v = "case stack ts ! ?i of None \<Rightarrow> Some [f] | Some c \<Rightarrow> Some (c @ [f])"
  have i: "?i < length (stack ts)" using False by simp
  have "\<forall>s \<in> set (chain_of (stack ts ! ?i)). P s" by (rule chains_ok_nth[OF assms(1) i])
  then have v: "\<forall>s \<in> set (chain_of ?v). P s"
    using assms(2) by (cases "stack ts ! ?i") auto
  have "stack (fst (ts_append f ts)) = (stack ts)[?i := ?v]"
    using False by (simp add: ts_append_def Let_def)
  then show ?thesis using chains_ok_update[OF assms(1) v] by simp
qed

lemma OnLeaveSeq_chains_ok:
  assumes "chains_ok P (stack ts)"
    and "\<And>k c. stack ts \<noteq> [] \<Longrightarrow> stack ts ! (length (stack ts) - Suc 0) = Some c \<Longrightarrow>
           \<forall>s \<in> set c. P s \<Longrightarrow>
           P (MapState (''Seq'' @ take 8 (hex_EncodeToString
                (sha256_Sum256 (names ts ! (length (stack ts) - Suc 0))))) ''$.Payload'' k c)"
  shows "chains_ok P (stack (fst (OnLeaveSeq seq ts)))"
proof (cases "snd (OnLeaveSeq seq ts) \<noteq> None \<and> fst (OnLeaveSeq seq ts) = ts")
  case True
  then show ?thesis using assms(1) by simp
next
  case False
  then have ne: "stack ts \<noteq> []"
    by (auto simp: OnLeaveSeq_def)
  from False have le: "\<not> length (names ts) \<le> length (stack ts) - Suc 0"
    by (auto simp: OnLeaveSeq_def Let_def ne)
  from False obtain a rest where s: "seq = a # rest"
    by (cases seq) (auto simp: OnLeaveSeq_def Let_def ne le)
  from False obtain c where c: "stack ts ! (length (stack ts) - Suc 0) = Some c"
    by (cases "stack ts ! (length (stack ts) - Suc 0)") (auto simp: OnLeaveSeq_def Let_def ne le s)
  have i: "length (stack ts) - Suc 0 < length (stack ts)" using ne by simp
  have "\<forall>x \<in> set (chain_of (stack ts ! (length (stack ts) - Suc 0))). P x"
    by (rule chains_ok_nth[OF assms(1) i])
  then have pc: "\<forall>x \<in> set c. P x" by (simp add: c)
  let ?f = "MapState (''Seq'' @ take 8 (hex_EncodeToString
            (sha256_Sum256 (names ts ! (length (stack ts) - Suc 0)))))
          ''$.Payload'' (case a of AstMap (Lambda l) \<Rightarrow> concurency l | _ \<Rightarrow> 1) c"
  let ?ts2 = "ts\<lparr> stack := take (length (stack ts) - Suc 0) (stack ts),
              names := take (length (stack ts) - Suc 0) (names ts) \<rparr>"
  have "chains_ok P (stack ?ts2)" using chains_ok_take[OF assms(1)] by simp
  then have k: "chains_ok P (stack (fst (ts_append ?f ?ts2)))"
    by (rule ts_append_chains_ok) (rule assms(2)[OF ne c pc])
  have "stack (fst (OnLeaveSeq seq ts)) = stack (fst (ts_append ?f ?ts2))"
    unfolding s OnLeaveSeq_Some[OF ne le c]
    by (cases "ts_append ?f ?ts2") (auto split: option.splits)
  then show ?thesis using k by simp
qed

lemma OnLeaveMorphism_kept:
  "stack (fst (OnLeaveMorphism ts)) = stack ts"
  "names (fst (OnLeaveMorphism ts)) = names ts"
  by (simp_all add: OnLeaveMorphism_def Let_def split: option.splits)

lemma OnLeaveMorphism_resources_ok:
  assumes "chains_ok P (stack ts)" "resources_ok P (resources ts)"
  shows "resources_ok P (resources (fst (OnLeaveMorphism ts)))"
proof (cases "snd (OnLeaveMorphism ts)")
  case None
  then have "OnLeaveMorphism ts = (fst (OnLeaveMorphism ts), None)" by (simp add: prod_eq_iff)
  from OnLeaveMorphism_ok[OF this] obtain b c where
    s: "stack ts = [Some c]"
    and r: "fst (OnLeaveMorphism ts) = ts\<lparr> resources := resources ts @
                [StateMachine c, Rule b (eventPattern ts) (StateMachine c)] \<rparr>" by blast
  have "\<forall>x \<in> set c. P x" using assms(1) s by (simp add: chains_ok_def)
  then show ?thesis using assms(2) unfolding r by (auto simp: resources_ok_def)
next
  case (Some e)
  then have "fst (OnLeaveMorphism ts) = ts" by (simp add: OnLeaveMorphism_error)
  then show ?thesis using assms(2) by simp
qed

lemma run_invariant:
  assumes "\<And>e ts. I ts \<Longrightarrow> I (fst (dispatch e ts))" "I ts"
  shows "I (fst (run es ts))"
  using assms(2)
proof (induction es arbitrary: ts)
  case Nil
  then show ?case by simp
next
  case (Cons e es)
  obtain ts1 r where d: "dispatch e ts = (ts1, r)" by (cases "dispatch e ts")
  have i1: "I ts1" using assms(1)[OF Cons.prems, of e] d by simp
  show ?case using d i1 Cons.IH[OF i1] by (cases r) simp_all
qed

lemma OnEnterMap_Lambda:
  "OnEnterMap (Lambda l) ts =
     ts_append
       (LambdaInvoke (''Map'' @ function_id (lambda_f l)) (args ts) (lambda_f l)
          (case DeadLetterQueue ts of
             None \<Rightarrow> []
           | Some q \<Rightarrow>
               [([SqsSendMessage (''Try'' @ function_id (lambda_f l)) q ''$'',
                  FailState (''Err'' @ function_id (lambda_f l))], ''$.error'')])) ts"
  by (cases "DeadLetterQueue ts") (simp_all add: OnEnterMap_def Let_def)

lemma catch_inv_dispatch:
  assumes "catch_inv d ts"
  shows "catch_inv d (fst (dispatch e ts))"
proof -
  from assms have q: "DeadLetterQueue ts = d" and c: "chains_ok (catch_ok d) (stack ts)"
    and r: "resources_ok (catch_ok d) (resources ts)" by (simp_all add: catch_inv_def)
  have c': "chains_ok (catch_ok d) (stack (fst (dispatch e ts)))"
  proof (cases e)
    case (EnterSeq seq)
    then show ?thesis using c by (simp add: OnEnterSeq_def chains_ok_snoc)
  next
    case (LeaveSeq seq)
    have "chains_ok (catch_ok d) (stack (fst (OnLeaveSeq seq ts)))"
      by (rule OnLeaveSeq_chains_ok[OF c]) simp
    then show ?thesis using LeaveSeq by simp
  next
    case (EnterMap F)
    show ?thesis
    proof (cases F)
      case (Lambda l)
      have "chains_ok (catch_ok d) (stack (fst (ts_append
          (LambdaInvoke (''Map'' @ function_id (lambda_f l)) (args ts) (lambda_f l)
             (case DeadLetterQueue ts of
                None \<Rightarrow> []
              | Some q \<Rightarrow>
                  [([SqsSendMessage (''Try'' @ function_id (lambda_f l)) q ''$'',
                     FailState (''Err'' @ function_id (lambda_f l))], ''$.error'')])) ts)))"
        by (rule ts_append_chains_ok[OF c]) (simp add: q)
      then show ?thesis
        unfolding EnterMap Lambda by (simp add: OnEnterMap_Lambda)
    next
      case (OtherBinding T)
      then show ?thesis using c EnterMap by (simp add: OnEnterMap_def)
    qed
  next
    case (EnterYield Type tgt)
    show ?thesis
      unfolding EnterYield
      by (cases tgt) (simp_all add: OnEnterYield_def Let_def c ts_append_chains_ok[OF c])
  next
    case (EnterFrom Type src)
    then show ?thesis using c by (cases src) (simp_all add: OnEnterFrom_def)
  next
    case LeaveMorphism
    then show ?thesis using c by (simp add: OnLeaveMorphism_kept)
  qed (use c in \<open>simp_all add: OnEnterMorphism_def OnLeaveMap_def OnLeaveFrom_def OnLeaveYield_def\<close>)
  have r': "resources_ok (catch_ok d) (resources (fst (dispatch e ts)))"
  proof (cases "e = LeaveMorphism")
    case True
    then show ?thesis using OnLeaveMorphism_resources_ok[OF c r] by simp
  next
    case False
    then show ?thesis using r by (simp add: dispatch_resources)
  qed
  show ?thesis using q c' r' by (simp add: catch_inv_def)
qed

lemma catch_inv_NewTypeStep: "catch_inv (props_DeadLetterQueue props) (NewTypeStep props)"
  by (simp add: catch_inv_def NewTypeStep_def chains_ok_def resources_ok_def)

lemma catch_inv_run:
  "catch_inv (props_DeadLetterQueue props) (fst (run es (NewTypeStep props)))"
  by (rule run_invariant[OF catch_inv_dispatch catch_inv_NewTypeStep])

lemma OnEnterMap_Other:
  "OnEnterMap (OtherBinding T) ts = (ts, Some (Error (''unkown compute type: '' @ T)))"
  by (simp add: OnEnterMap_def)

lemma chain_ids_snoc: "chain_ids (c @ [f]) = chain_ids c @ state_id f"
  by (simp add: chain_ids_def)

lemma ts_append_names:
  assumes "names ts = map (\<lambda>c. chain_ids (chain_of c)) (stack ts)"
  shows "names (fst (ts_append f ts)) =
           map (\<lambda>c. chain_ids (chain_of c)) (stack (fst (ts_append f ts)))"
proof (cases "stack ts = []")
  case True
  then show ?thesis using assms by (simp add: ts_append_def)
next
  case False
  have len: "length (names ts) = length (stack ts)" using assms by (metis length_map)
  have "fst (ts_append f ts) =
      ts\<lparr> stack := butlast (stack ts) @ [Some (chain_of (last (stack ts)) @ [f])],
          names := butlast (names ts) @ [last (names ts) @ state_id f] \<rparr>"
    by (simp add: ts_append_last[OF False len])
  moreover have "butlast (names ts) = map (\<lambda>c. chain_ids (chain_of c)) (butlast (stack ts))"
    using assms by (simp add: map_butlast)
  moreover have "last (names ts) = chain_ids (chain_of (last (stack ts)))"
    using assms False by (simp add: last_map)
  ultimately show ?thesis by (simp add: chain_ids_snoc)
qed

lemma OnLeaveSeq_names:
  assumes "names ts = map (\<lambda>c. chain_ids (chain_of c)) (stack ts)"
  shows "names (fst (OnLeaveSeq seq ts)) =
           map (\<lambda>c. chain_ids (chain_of c)) (stack (fst (OnLeaveSeq seq ts)))"
proof (cases "snd (OnLeaveSeq seq ts) \<noteq> None \<and> fst (OnLeaveSeq seq ts) = ts")
  case True
  then show ?thesis using assms by simp
next
  case False
  then have ne: "stack ts \<noteq> []"
    by (auto simp: OnLeaveSeq_def)
  from False have le: "\<not> length (names ts) \<le> length (stack ts) - Suc 0"
    by (auto simp: OnLeaveSeq_def Let_def ne)
  from False obtain a rest where s: "seq = a # rest"
    by (cases seq) (auto simp: OnLeaveSeq_def Let_def ne le)
  from False obtain c where c: "stack ts ! (length (stack ts) - Suc 0) = Some c"
    by (cases "stack ts ! (length (stack ts) - Suc 0)") (auto simp: OnLeaveSeq_def Let_def ne le s)
  let ?f = "MapState (''Seq'' @ take 8 (hex_EncodeToString
            (sha256_Sum256 (names ts ! (length (stack ts) - Suc 0)))))
          ''$.Payload'' (case a of AstMap (Lambda l) \<Rightarrow> concurency l | _ \<Rightarrow> 1) c"
  let ?ts2 = "ts\<lparr> stack := take (length (stack ts) - Suc 0) (stack ts),
              names := take (length (stack ts) - Suc 0) (names ts) \<rparr>"
  have "names ?ts2 = map (\<lambda>c. chain_ids (chain_of c)) (stack ?ts2)"
    using assms by (simp add: take_map)
  then have k: "names (fst (ts_append ?f ?ts2)) =
      map (\<lambda>c. chain_ids (chain_of c)) (stack (fst (ts_append ?f ?ts2)))"
    by (rule ts_append_names)
  have "stack (fst (OnLeaveSeq seq ts)) = stack (fst (ts_append ?f ?ts2)) \<and>
        names (fst (OnLeaveSeq seq ts)) = names (fst (ts_append ?f ?ts2))"
    unfolding s OnLeaveSeq_Some[OF ne le c]
    by (cases "ts_append ?f ?ts2") (auto split: option.splits)
  then show ?thesis using k by simp
qed

lemma names_inv_dispatch:
  assumes "names_inv ts"
  shows "names_inv (fst (dispatch e ts))"
proof -
  from assms have n: "names ts = map (\<lambda>c. chain_ids (chain_of c)) (stack ts)"
    and c: "chains_ok seq_named (stack ts)"
    and r: "resources_ok seq_named (resources ts)" by (simp_all add: names_inv_def)
  have n': "names (fst (dispatch e ts)) =
      map (\<lambda>c. chain_ids (chain_of c)) (stack (fst (dispatch e ts)))"
  proof (cases e)
    case (EnterSeq seq)
    then show ?thesis using n by (simp add: OnEnterSeq_def chain_ids_def)
  next
    case (LeaveSeq seq)
    then show ?thesis using OnLeaveSeq_names[OF n] by simp
  next
    case (EnterMap F)
    then show ?thesis
      using n ts_append_names[OF n] by (cases F) (simp_all add: OnEnterMap_Lambda OnEnterMap_Other)
  next
    case (EnterYield Type tgt)
    then show ?thesis
      using n ts_append_names[OF n] by (cases tgt) (simp_all add: OnEnterYield_def Let_def)
  next
    case (EnterFrom Type src)
    then show ?thesis using n by (cases src) (simp_all add: OnEnterFrom_def)
  next
    case LeaveMorphism
    then show ?thesis using n by (simp add: OnLeaveMorphism_kept)
  qed (use n in \<open>simp_all add: OnEnterMorphism_def OnLeaveMap_def OnLeaveFrom_def OnLeaveYield_def\<close>)
  have c': "chains_ok seq_named (stack (fst (dispatch e ts)))"
  proof (cases e)
    case (EnterSeq seq)
    then show ?thesis using c by (simp add: OnEnterSeq_def chains_ok_snoc)
  next
    case (LeaveSeq seq)
    have "chains_ok seq_named (stack (fst (OnLeaveSeq seq ts)))"
    proof (rule OnLeaveSeq_chains_ok[OF c])
      fix k ch
      assume ne: "stack ts \<noteq> []"
        and t: "stack ts ! (length (stack ts) - Suc 0) = Some ch"
        and a: "\<forall>s \<in> set ch. seq_named s"
      from ne have i: "length (stack ts) - Suc 0 < length (stack ts)" by simp
      have "names ts ! (length (stack ts) - Suc 0)
          = chain_ids (chain_of (stack ts ! (length (stack ts) - Suc 0)))"
        unfolding n using i by (simp add: nth_map)
      then have "names ts ! (length (stack ts) - Suc 0) = chain_ids ch" by (simp add: t)
      then show "seq_named (MapState (''Seq'' @ take 8 (hex_EncodeToString
            (sha256_Sum256 (names ts ! (length (stack ts) - Suc 0))))) ''$.Payload'' k ch)"
        using a by (simp add: seq_name_def)
    qed
    then show ?thesis using LeaveSeq by simp
  next
    case (EnterMap F)
    then show ?thesis
      using c ts_append_chains_ok[OF c]
      by (cases F) (simp_all add: OnEnterMap_Lambda OnEnterMap_Other)
  next
    case (EnterYield Type tgt)
    then show ?thesis
      using c ts_append_chains_ok[OF c] by (cases tgt) (simp_all add: OnEnterYield_def Let_def)
  next
    case (EnterFrom Type src)
    then show ?thesis using c by (cases src) (simp_all add: OnEnterFrom_def)
  next
    case LeaveMorphism
    then show ?thesis using c by (simp add: OnLeaveMorphism_kept)
  qed (use c in \<open>simp_all add: OnEnterMorphism_def OnLeaveMap_def OnLeaveFrom_def OnLeaveYield_def\<close>)
  have r': "resources_ok seq_named (resources (fst (dispatch e ts)))"
  proof (cases "e = LeaveMorphism")
    case True
    then show ?thesis using OnLeaveMorphism_resources_ok[OF c r] by simp
  next
    case False
    then show ?thesis using r by (simp add: dispatch_resources)
  qed
  show ?thesis using n' c' r' by (simp add: names_inv_def)
qed

lemma names_inv_NewTypeStep: "names_inv (NewTypeStep props)"
  by (simp add: names_inv_def NewTypeStep_def chains_ok_def resources_ok_def chain_ids_def)

lemma names_inv_run: "names_inv (fst (run es (NewTypeStep props)))"
  by (rule run_invariant[OF names_inv_dispatch names_inv_NewTypeStep])

section \<open>The input path\<close>

lemma OnLeaveSeq_args: "OnLeaveSeq seq ts = (ts', None) \<Longrightarrow> args ts' = ''$''"
  by (auto simp: OnLeaveSeq_def Let_def split: if_splits list.splits option.splits prod.splits)

lemma run_Yield_Queue:
  assumes "stack ts \<noteq> []" "length (names ts) = length (stack ts)"
  shows "run (trace (AstYield Type (Queue q))) ts =
    (ts\<lparr> stack := butlast (stack ts) @ [Some (chain_of (last (stack ts)) @
             [SqsSendMessage ''Sink'' q (args ts)])],
          names := butlast (names ts) @ [last (names ts) @ ''Sink''] \<rparr>, None)"
  by (simp add: OnEnterYield_def OnLeaveYield_def ts_append_last[OF assms])

lemma run_Yield_EventBus:
  assumes "stack ts \<noteq> []" "length (names ts) = length (stack ts)"
  shows "run (trace (AstYield Type (EventBus e))) ts =
    (ts\<lparr> stack := butlast (stack ts) @ [Some (chain_of (last (stack ts)) @
             [EventBridgePutEvents ''Sink'' (args ts)
                (if length (eb_cat e) \<noteq> 0 then eb_cat e ! 0 else Type) (eb_source e) (eb_bus e)])],
          names := butlast (names ts) @ [last (names ts) @ ''Sink''] \<rparr>, None)"
  by (simp add: OnEnterYield_def OnLeaveYield_def Let_def ts_append_last[OF assms])

lemma run_trace_args:
  assumes "run (trace a) ts = (ts', None)"
  shows "args ts' = path_after a (args ts)"
proof (cases a)
  case (AstFrom Type src)
  then show ?thesis
    using assms by (cases src) (auto simp: OnEnterFrom_def OnLeaveFrom_def)
next
  case (AstMap F)
  then show ?thesis
    using assms by (auto simp: OnLeaveMap_def split: prod.splits option.splits)
next
  case (AstSeq seq)
  from run_Seq_None[OF assms[unfolded AstSeq]] obtain ts1 where
    "OnLeaveSeq seq ts1 = (ts', None)" by blast
  then show ?thesis using AstSeq by (simp add: OnLeaveSeq_args)
next
  case (AstYield Type tgt)
  have "args ts' = args (fst (OnEnterYield Type tgt ts))"
    using assms AstYield by (auto simp: OnLeaveYield_def split: prod.splits option.splits)
  also have "\<dots> = args ts"
    by (cases tgt) (simp_all add: OnEnterYield_def Let_def)
  finally show ?thesis using AstYield by simp
qed

lemma run_trace_wf:
  assumes "stack ts \<noteq> []" "length (names ts) = length (stack ts)" "run (trace a) ts = (ts', None)"
  shows "stack ts' \<noteq> [] \<and> length (names ts') = length (stack ts')"
  by (rule lvl_wf[OF run_trace_lvl[OF lvl_butlast[OF assms(1,2)] assms(3)]])

section \<open>Well-formed pipelines compile\<close>







section \<open>Two compilations of one pipeline\<close>

lemma state_id_strip [simp]: "state_id (strip f) = state_id f"
  by (cases f) simp_all

lemma strip_opt_None: "map_option (map strip) x = map_option (map strip) y \<Longrightarrow> (x = None) = (y = None)"
  by (cases x; cases y) simp_all

lemma strip_snoc:
  assumes "map_option (map strip) x = map_option (map strip) y" "strip f = strip g"
  shows "map_option (map strip) (case x of None \<Rightarrow> Some [f] | Some c \<Rightarrow> Some (c @ [f])) =
         map_option (map strip) (case y of None \<Rightarrow> Some [g] | Some c \<Rightarrow> Some (c @ [g]))"
  using assms by (cases x; cases y) simp_all

lemma alike_length: "alike ts1 ts2 \<Longrightarrow> length (stack ts1) = length (stack ts2)"
  unfolding alike_def by (metis length_map)

lemma alike_nth:
  "alike ts1 ts2 \<Longrightarrow> i < length (stack ts1) \<Longrightarrow>
     map_option (map strip) (stack ts1 ! i) = map_option (map strip) (stack ts2 ! i)"
proof -
  assume a: "alike ts1 ts2" and i: "i < length (stack ts1)"
  have j: "i < length (stack ts2)" using alike_length[OF a] i by simp
  have "map (map_option (map strip)) (stack ts1) ! i = map (map_option (map strip)) (stack ts2) ! i"
    using a by (simp add: alike_def)
  then show ?thesis using i j by simp
qed

lemma ts_append_alike:
  assumes a: "alike ts1 ts2" and f: "strip f = strip g"
  shows "snd (ts_append f ts1) = snd (ts_append g ts2) \<and>
         alike (fst (ts_append f ts1)) (fst (ts_append g ts2))"
proof (cases "stack ts1 = []")
  case True
  then have "stack ts2 = []" using alike_length[OF a] by simp
  then show ?thesis using True a by (simp add: ts_append_def)
next
  case False
  then have ne2: "stack ts2 \<noteq> []" using alike_length[OF a] by auto
  have len: "length (stack ts2) = length (stack ts1)" using alike_length[OF a] by simp
  let ?i = "length (stack ts1) - 1"
  have i: "?i < length (stack ts1)" using False by simp
  let ?v = "case stack ts1 ! ?i of None \<Rightarrow> Some [f] | Some c \<Rightarrow> Some (c @ [f])"
  let ?w = "case stack ts2 ! ?i of None \<Rightarrow> Some [g] | Some c \<Rightarrow> Some (c @ [g])"
  have vw: "map_option (map strip) ?v = map_option (map strip) ?w"
    by (rule strip_snoc[OF alike_nth[OF a i] f])
  have st: "map (map_option (map strip)) ((stack ts1)[?i := ?v]) =
            map (map_option (map strip)) ((stack ts2)[?i := ?w])"
    using a vw by (simp add: alike_def map_update)
  have nm: "names ts1 = names ts2" using a by (simp add: alike_def)
  have id: "state_id f = state_id g" using f by (metis state_id_strip)
  show ?thesis
    using False ne2 a st id
    by (simp add: ts_append_def Let_def len nm alike_def)
qed

lemma OnLeaveSeq_alike:
  assumes a: "alike ts1 ts2"
  shows "snd (OnLeaveSeq seq ts1) = snd (OnLeaveSeq seq ts2) \<and>
         alike (fst (OnLeaveSeq seq ts1)) (fst (OnLeaveSeq seq ts2))"
proof (cases "stack ts1 = [] \<or> length (names ts1) \<le> length (stack ts1) - Suc 0 \<or> seq = []")
  case True
  have len: "length (stack ts2) = length (stack ts1)" using alike_length[OF a] by simp
  have nm: "names ts2 = names ts1" using a by (simp add: alike_def)
  have e: "(stack ts2 = []) = (stack ts1 = [])" using len by auto
  from True show ?thesis
    using a by (auto simp: OnLeaveSeq_def Let_def len nm e)
next
  case False
  then have ne1: "stack ts1 \<noteq> []" and le1: "\<not> length (names ts1) \<le> length (stack ts1) - Suc 0"
    and s: "seq \<noteq> []" by simp_all
  have len: "length (stack ts2) = length (stack ts1)" using alike_length[OF a] by simp
  have nm: "names ts2 = names ts1" using a by (simp add: alike_def)
  have ne2: "stack ts2 \<noteq> []" using ne1 len by auto
  have le2: "\<not> length (names ts2) \<le> length (stack ts2) - Suc 0" using le1 len nm by simp
  from s obtain n rest where c: "seq = n # rest" by (cases seq) auto
  let ?i = "length (stack ts1) - Suc 0"
  have i: "?i < length (stack ts1)" using ne1 by simp
  note top = alike_nth[OF a i]
  show ?thesis
  proof (cases "stack ts1 ! ?i")
    case None
    then have "stack ts2 ! ?i = None" using strip_opt_None[OF top] by simp
    then show ?thesis
      using None a le1 by (simp add: OnLeaveSeq_def Let_def ne1 ne2 c len nm)
  next
    case (Some c1)
    then obtain c2 where c2: "stack ts2 ! ?i = Some c2"
      using strip_opt_None[OF top] by (cases "stack ts2 ! ?i") auto
    have cc: "map strip c1 = map strip c2" using top Some c2 by simp
    let ?k = "case n of AstMap (Lambda l) \<Rightarrow> concurency l | _ \<Rightarrow> 1"
    let ?id = "''Seq'' @ take 8 (hex_EncodeToString (sha256_Sum256 (names ts1 ! ?i)))"
    let ?f = "MapState ?id ''$.Payload'' ?k c1"
    let ?g = "MapState ?id ''$.Payload'' ?k c2"
    let ?t1 = "ts1\<lparr> stack := take ?i (stack ts1), names := take ?i (names ts1) \<rparr>"
    let ?t2 = "ts2\<lparr> stack := take ?i (stack ts2), names := take ?i (names ts2) \<rparr>"
    have al: "alike ?t1 ?t2" using a by (simp add: alike_def take_map[symmetric])
    have fg: "strip ?f = strip ?g" using cc by simp
    note x = ts_append_alike[OF al fg]
    have o1: "OnLeaveSeq (n # rest) ts1 =
        (case ts_append ?f ?t1 of
           (ts3, Some e) \<Rightarrow> (ts3, Some e)
         | (ts3, None) \<Rightarrow> (ts3\<lparr> args := ''$'' \<rparr>, None))"
      by (rule OnLeaveSeq_Some[OF ne1 le1 Some])
    have c2': "stack ts2 ! (length (stack ts2) - Suc 0) = Some c2" using c2 len by simp
    have o2: "OnLeaveSeq (n # rest) ts2 =
        (case ts_append ?g ?t2 of
           (ts3, Some e) \<Rightarrow> (ts3, Some e)
         | (ts3, None) \<Rightarrow> (ts3\<lparr> args := ''$'' \<rparr>, None))"
      using OnLeaveSeq_Some[OF ne2 le2 c2', of n rest] by (simp add: len nm)
    obtain a1 r1 where e1: "ts_append ?f ?t1 = (a1, r1)" by (cases "ts_append ?f ?t1")
    obtain a2 r2 where e2: "ts_append ?g ?t2 = (a2, r2)" by (cases "ts_append ?g ?t2")
    from x e1 e2 have rr: "r1 = r2" and aa: "alike a1 a2" by simp_all
    show ?thesis
    proof (cases r1)
      case None
      have "alike (a1\<lparr> args := ''$'' \<rparr>) (a2\<lparr> args := ''$'' \<rparr>)"
        using aa by (simp add: alike_def)
      then show ?thesis unfolding c o1 o2 e1 e2 using None rr by simp
    next
      case (Some err)
      then show ?thesis unfolding c o1 o2 e1 e2 using rr aa by simp
    qed
  qed
qed

lemma OnLeaveMorphism_alike:
  assumes a: "alike ts1 ts2"
  shows "snd (OnLeaveMorphism ts1) = snd (OnLeaveMorphism ts2) \<and>
         alike (fst (OnLeaveMorphism ts1)) (fst (OnLeaveMorphism ts2))"
proof -
  have len: "length (stack ts2) = length (stack ts1)" using alike_length[OF a] by simp
  have b: "bus ts2 = bus ts1" using a by (simp add: alike_def)
  have al: "alike (fst (OnLeaveMorphism ts1)) (fst (OnLeaveMorphism ts2))"
    using a by (simp add: alike_def OnLeaveMorphism_kept OnLeaveMorphism_frame_fst
        OnLeaveMorphism_def Let_def split: option.splits)
  have "snd (OnLeaveMorphism ts1) = snd (OnLeaveMorphism ts2)"
  proof (cases "length (stack ts1) = 1")
    case True
    then have i: "0 < length (stack ts1)" by simp
    note top = strip_opt_None[OF alike_nth[OF a i]]
    show ?thesis
      using True top
      by (cases "bus ts1"; cases "stack ts1 ! 0"; cases "stack ts2 ! 0")
         (simp_all add: OnLeaveMorphism_def Let_def len b)
  next
    case False
    then show ?thesis by (simp add: OnLeaveMorphism_def len)
  qed
  then show ?thesis using al by simp
qed

lemma dispatch_alike:
  assumes a: "alike ts1 ts2"
  shows "snd (dispatch e ts1) = snd (dispatch e ts2) \<and>
         alike (fst (dispatch e ts1)) (fst (dispatch e ts2))"
proof (cases e)
  case (EnterSeq seq)
  then show ?thesis using a by (simp add: OnEnterSeq_def alike_def)
next
  case (LeaveSeq seq)
  then show ?thesis using OnLeaveSeq_alike[OF a] by simp
next
  case (EnterMap F)
  show ?thesis
  proof (cases F)
    case (Lambda l)
    have ar: "args ts1 = args ts2" using a by (simp add: alike_def)
    show ?thesis
      unfolding EnterMap Lambda dispatch.simps OnEnterMap_Lambda ar
      by (rule ts_append_alike[OF a]) simp
  next
    case (OtherBinding T)
    then show ?thesis using a EnterMap by (simp add: OnEnterMap_Other)
  qed
next
  case (EnterYield Type tgt)
  have ar: "args ts1 = args ts2" using a by (simp add: alike_def)
  show ?thesis
  proof (cases tgt)
    case (Queue q)
    show ?thesis
      unfolding EnterYield Queue
      using ts_append_alike[OF a, where f = "SqsSendMessage ''Sink'' q (args ts2)"
          and g = "SqsSendMessage ''Sink'' q (args ts2)"]
      by (simp add: OnEnterYield_def ar)
  next
    case (EventBus eb)
    show ?thesis
      unfolding EnterYield EventBus
      using ts_append_alike[OF a, where f = "EventBridgePutEvents ''Sink'' (args ts2)
          (if length (eb_cat eb) \<noteq> 0 then eb_cat eb ! 0 else Type) (eb_source eb) (eb_bus eb)"
          and g = "EventBridgePutEvents ''Sink'' (args ts2)
          (if length (eb_cat eb) \<noteq> 0 then eb_cat eb ! 0 else Type) (eb_source eb) (eb_bus eb)"]
      by (simp add: OnEnterYield_def Let_def ar)
  next
    case (OtherTarget T)
    then show ?thesis using a EnterYield by (simp add: OnEnterYield_def)
  qed
next
  case (EnterFrom Type src)
  then show ?thesis using a by (cases src) (simp_all add: OnEnterFrom_def alike_def)
next
  case LeaveMorphism
  then show ?thesis using OnLeaveMorphism_alike[OF a] by simp
qed (use a in \<open>simp_all add: OnEnterMorphism_def OnLeaveMap_def OnLeaveFrom_def OnLeaveYield_def
      alike_def\<close>)

lemma run_alike:
  "alike ts1 ts2 \<Longrightarrow>
     snd (run es ts1) = snd (run es ts2) \<and> alike (fst (run es ts1)) (fst (run es ts2))"
proof (induction es arbitrary: ts1 ts2)
  case Nil
  then show ?case by simp
next
  case (Cons e es)
  obtain a r where d1: "dispatch e ts1 = (a, r)" by (cases "dispatch e ts1")
  obtain b q where d2: "dispatch e ts2 = (b, q)" by (cases "dispatch e ts2")
  from dispatch_alike[OF Cons.prems, of e] d1 d2 have rq: "r = q" and ab: "alike a b" by simp_all
  show ?case
  proof (cases r)
    case None
    then show ?thesis using d1 d2 rq Cons.IH[OF ab] by simp
  next
    case (Some err)
    then show ?thesis using d1 d2 rq ab by simp
  qed
qed

lemma alike_NewTypeStep: "alike (NewTypeStep p1) (NewTypeStep p2)"
  by (simp add: alike_def NewTypeStep_def)

section \<open>The claims\<close>

text \<open>
  C10. The stack and the names run parallel. \<^verbatim>\<open>NewTypeStep\<close> starts both with one
  element. Let \<open>S\<close> be the compiler state after any number \<open>n\<close> of callbacks of the
  traversal of any pipeline \<open>root\<close>. In \<open>S\<close> the two lists have the same length, which is
  one or more. \<^verbatim>\<open>OnEnterSeq\<close> in \<open>S\<close> adds one element at the end of each (a \<^verbatim>\<open>nil\<close>
  chain and the empty name) and leaves the others as they are. Whenever \<^verbatim>\<open>OnLeaveSeq\<close>
  in \<open>S\<close> returns without error there were two levels or more, it removes the last
  element of each list, and the fan-out state that holds the removed chain is appended to
  the level below, which is then the last; the levels further down are as they were.
  \<^verbatim>\<open>append\<close> in \<open>S\<close> does not panic and replaces only the last element of each list: the
  last chain extended by the state, and the last name extended by its identifier.
\<close>

theorem stack_names_parallel:
  fixes n :: nat and root :: "ast list" and props :: typeStepProps
  defines "S \<equiv> fst (run (take n (trace_morphism root)) (NewTypeStep props))"
  shows
    "stack (NewTypeStep props) = [None] \<and> names (NewTypeStep props) = ['''']
     \<and> length (names S) = length (stack S) \<and> 1 \<le> length (stack S)
     \<and> OnEnterSeq S =
          (S\<lparr> stack := stack S @ [None], names := names S @ [''''], args := ''$'' \<rparr>, None)
     \<and> (OnLeaveSeq seq S = (S', None) \<longrightarrow>
          2 \<le> length (stack S)
          \<and> length (stack S') = length (stack S) - 1
          \<and> length (names S') = length (names S) - 1
          \<and> stack S' = butlast (butlast (stack S)) @
               [Some (chain_of (last (butlast (stack S))) @
                  [MapState (''Seq'' @ take 8 (hex_EncodeToString (sha256_Sum256 (last (names S)))))
                     ''$.Payload'' (case hd seq of AstMap (Lambda l) \<Rightarrow> concurency l | _ \<Rightarrow> 1)
                     (chain_of (last (stack S)))])]
          \<and> names S' = butlast (butlast (names S)) @
               [last (butlast (names S)) @
                  ''Seq'' @ take 8 (hex_EncodeToString (sha256_Sum256 (last (names S))))])
     \<and> ts_append f S =
          (S\<lparr> stack := butlast (stack S) @ [Some (chain_of (last (stack S)) @ [f])],
               names := butlast (names S) @ [last (names S) @ state_id f] \<rparr>, None)"
proof -
  have "at_least [] [] S" unfolding S_def by (rule reachable_at_least)
  then have a: "stack S \<noteq> []" and b: "length (names S) = length (stack S)"
    by (simp_all add: at_least_empty_iff)
  from a have c: "1 \<le> length (stack S)" by (cases "stack S") simp_all
  have i: "stack (NewTypeStep props) = [None] \<and> names (NewTypeStep props) = ['''']"
    by (simp add: NewTypeStep_def)
  have e: "OnEnterSeq S =
      (S\<lparr> stack := stack S @ [None], names := names S @ [''''], args := ''$'' \<rparr>, None)"
    by (simp add: OnEnterSeq_def)
  have l: "2 \<le> length (stack S)
          \<and> length (stack S') = length (stack S) - 1
          \<and> length (names S') = length (names S) - 1
          \<and> stack S' = butlast (butlast (stack S)) @
               [Some (chain_of (last (butlast (stack S))) @
                  [MapState (''Seq'' @ take 8 (hex_EncodeToString (sha256_Sum256 (last (names S)))))
                     ''$.Payload'' (case hd seq of AstMap (Lambda l) \<Rightarrow> concurency l | _ \<Rightarrow> 1)
                     (chain_of (last (stack S)))])]
          \<and> names S' = butlast (butlast (names S)) @
               [last (butlast (names S)) @
                  ''Seq'' @ take 8 (hex_EncodeToString (sha256_Sum256 (last (names S))))]"
    if ok: "OnLeaveSeq seq S = (S', None)"
  proof -
    note p = OnLeaveSeq_pop[OF a b ok]
    from p have two: "2 \<le> length (stack S)" by simp
    from p have s: "stack S' = butlast (butlast (stack S)) @
               [Some (chain_of (last (butlast (stack S))) @
                  [MapState (''Seq'' @ take 8 (hex_EncodeToString (sha256_Sum256 (last (names S)))))
                     ''$.Payload'' (case hd seq of AstMap (Lambda l) \<Rightarrow> concurency l | _ \<Rightarrow> 1)
                     (chain_of (last (stack S)))])]" by simp
    from p have n: "names S' = butlast (butlast (names S)) @
               [last (butlast (names S)) @
                  ''Seq'' @ take 8 (hex_EncodeToString (sha256_Sum256 (last (names S))))]" by simp
    have l1: "length (stack S') = length (stack S) - 1" using two by (simp add: s)
    have l2: "length (names S') = length (names S) - 1" using two b by (simp add: n)
    from two l1 l2 s n show ?thesis by blast
  qed
  have t: "ts_append f S =
          (S\<lparr> stack := butlast (stack S) @ [Some (chain_of (last (stack S)) @ [f])],
               names := butlast (names S) @ [last (names S) @ state_id f] \<rparr>, None)"
    by (rule ts_append_last[OF a b])
  from i b c e l t show ?thesis by blast
qed
theorem stack_names_parallel_witness:
  defines "S \<equiv> fst (run (take 14 (trace_morphism scenario)) (NewTypeStep scenario_props))"
    and "seq \<equiv> [AstMap (Lift_payload (IFunction ''PickProduct'')),
                 AstSeq [AstMap (Lift_payload (IFunction ''MailTo''))]]"
  defines "S' \<equiv> fst (OnLeaveSeq seq S)"
    and "f \<equiv> SqsSendMessage ''Sink'' (IQueue ''Reply'') ''$''"
    and "E \<equiv> fst (run (take 16 (trace_morphism scenario)) (NewTypeStep scenario_props))"
  shows
    "OnLeaveSeq seq S = (S', None)
     \<and> map (\<lambda>c. map state_id (chain_of c)) (stack S) =
          [[''MapGetUser'', ''MapPickCategory''],
           [''MapPickProduct'', ''Seq'' @ take 8 (hex_EncodeToString (sha256_Sum256 ''MapMailTo''))]]
     \<and> map (\<lambda>c. map state_id (chain_of c)) (stack S') =
          [[''MapGetUser'', ''MapPickCategory'',
            ''Seq'' @ take 8 (hex_EncodeToString (sha256_Sum256
               (''MapPickProduct'' @ ''Seq'' @ take 8 (hex_EncodeToString (sha256_Sum256 ''MapMailTo'')))))]]
     \<and> map (\<lambda>c. map state_id (chain_of c)) (stack (fst (ts_append f S'))) =
          [[''MapGetUser'', ''MapPickCategory'',
            ''Seq'' @ take 8 (hex_EncodeToString (sha256_Sum256
               (''MapPickProduct'' @ ''Seq'' @ take 8 (hex_EncodeToString (sha256_Sum256 ''MapMailTo''))))),
            ''Sink'']]
     \<and> stack (NewTypeStep scenario_props) = [None] \<and> names (NewTypeStep scenario_props) = ['''']
     \<and> length (names S) = length (stack S) \<and> 1 \<le> length (stack S)
     \<and> OnEnterSeq S =
          (S\<lparr> stack := stack S @ [None], names := names S @ [''''], args := ''$'' \<rparr>, None)
     \<and> 2 \<le> length (stack S)
     \<and> length (stack S') = length (stack S) - 1
     \<and> length (names S') = length (names S) - 1
     \<and> stack S' = butlast (butlast (stack S)) @
          [Some (chain_of (last (butlast (stack S))) @
             [MapState (''Seq'' @ take 8 (hex_EncodeToString (sha256_Sum256 (last (names S)))))
                ''$.Payload'' (case hd seq of AstMap (Lambda l) \<Rightarrow> concurency l | _ \<Rightarrow> 1)
                (chain_of (last (stack S)))])]
     \<and> names S' = butlast (butlast (names S)) @
          [last (butlast (names S)) @
             ''Seq'' @ take 8 (hex_EncodeToString (sha256_Sum256 (last (names S))))]
     \<and> ts_append f S =
          (S\<lparr> stack := butlast (stack S) @ [Some (chain_of (last (stack S)) @ [f])],
               names := butlast (names S) @ [last (names S) @ state_id f] \<rparr>, None)
     \<and> map (\<lambda>c. map state_id (chain_of c)) (stack E) =
          [[''MapGetUser'', ''MapPickCategory'',
            ''Seq'' @ take 8 (hex_EncodeToString (sha256_Sum256
               (''MapPickProduct'' @ ''Seq'' @ take 8 (hex_EncodeToString (sha256_Sum256 ''MapMailTo''))))),
            ''Sink'']]
     \<and> length (names E) = length (stack E) \<and> 1 \<le> length (stack E)
     \<and> OnEnterSeq E =
          (E\<lparr> stack := stack E @ [None], names := names E @ [''''], args := ''$'' \<rparr>, None)
     \<and> ts_append f E =
          (E\<lparr> stack := butlast (stack E) @ [Some (chain_of (last (stack E)) @ [f])],
               names := butlast (names E) @ [last (names E) @ state_id f] \<rparr>, None)"
proof -
  have "snd (OnLeaveSeq seq S) = None"
    unfolding S_def seq_def by (simp add: scenario_def scenario_props_def run_defs)
  then have h: "OnLeaveSeq seq S = (S', None)"
    unfolding S'_def by (simp add: prod_eq_iff)
  have v1: "map (\<lambda>c. map state_id (chain_of c)) (stack S) =
          [[''MapGetUser'', ''MapPickCategory''],
           [''MapPickProduct'', ''Seq'' @ take 8 (hex_EncodeToString (sha256_Sum256 ''MapMailTo''))]]"
    unfolding S_def by (simp add: scenario_def scenario_props_def run_defs)
  have v2: "map (\<lambda>c. map state_id (chain_of c)) (stack S') =
          [[''MapGetUser'', ''MapPickCategory'',
            ''Seq'' @ take 8 (hex_EncodeToString (sha256_Sum256
               (''MapPickProduct'' @ ''Seq'' @ take 8 (hex_EncodeToString (sha256_Sum256 ''MapMailTo'')))))]]"
    unfolding S'_def S_def seq_def by (simp add: scenario_def scenario_props_def run_defs)
  have v3: "map (\<lambda>c. map state_id (chain_of c)) (stack (fst (ts_append f S'))) =
          [[''MapGetUser'', ''MapPickCategory'',
            ''Seq'' @ take 8 (hex_EncodeToString (sha256_Sum256
               (''MapPickProduct'' @ ''Seq'' @ take 8 (hex_EncodeToString (sha256_Sum256 ''MapMailTo''))))),
            ''Sink'']]"
    unfolding S'_def S_def seq_def f_def by (simp add: scenario_def scenario_props_def run_defs)
  note t = stack_names_parallel[where n = 14 and root = scenario and props = scenario_props
      and seq = seq and S' = S' and f = f, folded S_def]
  have v4: "map (\<lambda>c. map state_id (chain_of c)) (stack E) =
          [[''MapGetUser'', ''MapPickCategory'',
            ''Seq'' @ take 8 (hex_EncodeToString (sha256_Sum256
               (''MapPickProduct'' @ ''Seq'' @ take 8 (hex_EncodeToString (sha256_Sum256 ''MapMailTo''))))),
            ''Sink'']]"
    unfolding E_def by (simp add: scenario_def scenario_props_def run_defs)
  note u = stack_names_parallel[where n = 16 and root = scenario and props = scenario_props
      and f = f, folded E_def]
  from u have u1: "length (names E) = length (stack E) \<and> 1 \<le> length (stack E)" by blast
  from u have u2: "OnEnterSeq E =
          (E\<lparr> stack := stack E @ [None], names := names E @ [''''], args := ''$'' \<rparr>, None)"
    by blast
  from u have u3: "ts_append f E =
          (E\<lparr> stack := butlast (stack E) @ [Some (chain_of (last (stack E)) @ [f])],
               names := butlast (names E) @ [last (names E) @ state_id f] \<rparr>, None)" by blast
  from t h have b: "2 \<le> length (stack S)
     \<and> length (stack S') = length (stack S) - 1
     \<and> length (names S') = length (names S) - 1
     \<and> stack S' = butlast (butlast (stack S)) @
          [Some (chain_of (last (butlast (stack S))) @
             [MapState (''Seq'' @ take 8 (hex_EncodeToString (sha256_Sum256 (last (names S)))))
                ''$.Payload'' (case hd seq of AstMap (Lambda l) \<Rightarrow> concurency l | _ \<Rightarrow> 1)
                (chain_of (last (stack S)))])]
     \<and> names S' = butlast (butlast (names S)) @
          [last (butlast (names S)) @
             ''Seq'' @ take 8 (hex_EncodeToString (sha256_Sum256 (last (names S))))]" by blast
  from t have c: "stack (NewTypeStep scenario_props) = [None] \<and> names (NewTypeStep scenario_props) = ['''']
     \<and> length (names S) = length (stack S) \<and> 1 \<le> length (stack S)
     \<and> OnEnterSeq S =
          (S\<lparr> stack := stack S @ [None], names := names S @ [''''], args := ''$'' \<rparr>, None)" by blast
  from t have d: "ts_append f S =
          (S\<lparr> stack := butlast (stack S) @ [Some (chain_of (last (stack S)) @ [f])],
               names := butlast (names S) @ [last (names S) @ state_id f] \<rparr>, None)" by blast
  from h v1 v2 v3 b c d v4 u1 u2 u3 show ?thesis by blast
qed

text \<open>
  C7. Default category filtering. \<^verbatim>\<open>OnEnterFrom\<close> on a node of type name \<open>Type\<close> whose
  source was built by \<^verbatim>\<open>From\<close> with the categories \<open>cat\<close> records the event bus and the
  event pattern: the detail types are \<open>[Type]\<close> when \<open>cat\<close> is empty, and \<open>cat\<close> itself
  (the type name unused) when it is not. When a pipeline holds that node and no \<^verbatim>\<open>From\<close>
  node after it, and its compilation succeeds, the compiler has created one state machine
  and one rule on that event bus for it, and the event pattern of the rule is that one.
\<close>

theorem default_category_filtering:
  "OnEnterFrom Type (From_payload b cat) ts =
     (ts\<lparr> bus := b, eventPattern := Some (if cat = [] then [Type] else cat),
          args := ''$.detail'' \<rparr>, None)
   \<and> ((\<forall>a \<in> set rest. \<not> has_from a) \<and>
       Apply (pre @ AstFrom Type (From_payload b cat) # rest) (NewTypeStep props) = (ts', None)
       \<longrightarrow> (\<exists>c bb. b = Some bb \<and> stack ts' = [Some c] \<and>
               resources ts' =
                 [StateMachine c,
                  Rule bb (Some (if cat = [] then [Type] else cat)) (StateMachine c)]))"
proof -
  have 1: "OnEnterFrom Type (From_payload b cat) ts =
     (ts\<lparr> bus := b, eventPattern := Some (if cat = [] then [Type] else cat),
          args := ''$.detail'' \<rparr>, None)"
    by (simp add: OnEnterFrom_def From_payload_def)
  have 2: "\<exists>c bb. b = Some bb \<and> stack ts' = [Some c] \<and>
               resources ts' =
                 [StateMachine c,
                  Rule bb (Some (if cat = [] then [Type] else cat)) (StateMachine c)]"
    if nf: "\<forall>a \<in> set rest. \<not> has_from a"
      and ok: "Apply (pre @ AstFrom Type (From_payload b cat) # rest) (NewTypeStep props) = (ts', None)"
  proof -
    let ?pat = "Some (if cat = [] then [Type] else cat)"
    from Apply_ok[OF ok] obtain ts1 bb c where
      r: "run (concat (map trace (pre @ AstFrom Type (From_payload b cat) # rest)))
            (NewTypeStep props) = (ts1, None)"
      and x: "bus ts1 = Some bb" "stack ts1 = [Some c]"
         "ts' = ts1\<lparr> resources := resources (NewTypeStep props) @
                    [StateMachine c, Rule bb (eventPattern ts1) (StateMachine c)] \<rparr>"
      by blast
    have "run (concat (map trace pre) @ trace (AstFrom Type (From_payload b cat)) @
            concat (map trace rest)) (NewTypeStep props) = (ts1, None)"
      using r by simp
    then obtain tsa where a: "run (concat (map trace pre)) (NewTypeStep props) = (tsa, None)"
      and a2: "run (trace (AstFrom Type (From_payload b cat)) @ concat (map trace rest)) tsa
                 = (ts1, None)"
      by (blast dest: run_append_None)
    from run_append_None[OF a2] obtain tsb where
      f: "run (trace (AstFrom Type (From_payload b cat))) tsa = (tsb, None)"
      and g: "run (concat (map trace rest)) tsb = (ts1, None)"
      by blast
    have tsb: "tsb = tsa\<lparr> bus := b, eventPattern := ?pat, args := ''$.detail'' \<rparr>"
      using f unfolding run_From by simp
    have "bus ts1 = bus tsb \<and> eventPattern ts1 = eventPattern tsb"
      using run_source[OF traces_no_EnterFrom[OF nf], of tsb] g by simp
    then have s: "bus ts1 = b" "eventPattern ts1 = ?pat" by (simp_all add: tsb)
    have "resources (NewTypeStep props) = []" by (simp add: NewTypeStep_def)
    then show ?thesis using x s by auto
  qed
  from 1 2 show ?thesis by blast
qed
theorem default_category_filtering_witness:
  defines "tagged \<equiv>
      [AstFrom ''Account'' (From_payload (Some (IEventBus ''Input'')) [''Created'', ''Updated'']),
       AstMap (Join_payload (IFunction ''GetUser'')),
       AstYield ''User'' (ToQueue_payload (IQueue ''Reply''))]"
  shows
    "snd (Apply scenario (NewTypeStep scenario_props)) = None
     \<and> (\<exists>c. stack (fst (Apply scenario (NewTypeStep scenario_props))) = [Some c] \<and>
           resources (fst (Apply scenario (NewTypeStep scenario_props))) =
             [StateMachine c, Rule (IEventBus ''Input'') (Some [''Account'']) (StateMachine c)])
     \<and> snd (Apply tagged (NewTypeStep scenario_props)) = None
     \<and> (\<exists>c. stack (fst (Apply tagged (NewTypeStep scenario_props))) = [Some c] \<and>
           resources (fst (Apply tagged (NewTypeStep scenario_props))) =
             [StateMachine c,
              Rule (IEventBus ''Input'') (Some [''Created'', ''Updated'']) (StateMachine c)])"
proof -
  let ?p = "NewTypeStep scenario_props"
  let ?rest = "[AstMap (Join_payload (IFunction ''GetUser'')),
      AstMap (Join_payload (IFunction ''PickCategory'')),
      AstSeq [AstMap (Lift_payload (IFunction ''PickProduct'')),
              AstSeq [AstMap (Lift_payload (IFunction ''MailTo''))]],
      AstYield ''Mail'' (ToQueue_payload (IQueue ''Reply''))]"
  let ?rest2 = "[AstMap (Join_payload (IFunction ''GetUser'')),
       AstYield ''User'' (ToQueue_payload (IQueue ''Reply''))]"
  have s1: "snd (Apply scenario ?p) = None"
    by (simp add: Apply_def scenario_def scenario_props_def run_defs)
  have s2: "snd (Apply tagged ?p) = None"
    unfolding tagged_def by (simp add: Apply_def scenario_props_def run_defs)
  have e1: "[] @ AstFrom ''Account'' (From_payload (Some (IEventBus ''Input'')) []) # ?rest = scenario"
    by (simp add: scenario_def)
  have e2: "[] @ AstFrom ''Account''
      (From_payload (Some (IEventBus ''Input'')) [''Created'', ''Updated'']) # ?rest2 = tagged"
    by (simp add: tagged_def)
  have n1: "\<forall>a \<in> set ?rest. \<not> has_from a"
    by (simp add: Join_payload_def Lift_payload_def ToQueue_payload_def)
  have n2: "\<forall>a \<in> set ?rest2. \<not> has_from a"
    by (simp add: Join_payload_def ToQueue_payload_def)
  have a1: "Apply scenario ?p = (fst (Apply scenario ?p), None)"
    using s1 by (simp add: prod_eq_iff)
  have a2: "Apply tagged ?p = (fst (Apply tagged ?p), None)"
    using s2 by (simp add: prod_eq_iff)
  note t1 = default_category_filtering[where pre = "[]" and rest = ?rest and Type = "''Account''"
      and b = "Some (IEventBus ''Input'')" and cat = "[]" and props = scenario_props
      and ts' = "fst (Apply scenario ?p)", unfolded e1]
  note t2 = default_category_filtering[where pre = "[]" and rest = ?rest2 and Type = "''Account''"
      and b = "Some (IEventBus ''Input'')" and cat = "[''Created'', ''Updated'']"
      and props = scenario_props and ts' = "fst (Apply tagged ?p)", unfolded e2]
  from t1 n1 a1 have r1: "\<exists>c. stack (fst (Apply scenario ?p)) = [Some c] \<and>
           resources (fst (Apply scenario ?p)) =
             [StateMachine c, Rule (IEventBus ''Input'') (Some [''Account'']) (StateMachine c)]"
    by auto
  from t2 n2 a2 have r2: "\<exists>c. stack (fst (Apply tagged ?p)) = [Some c] \<and>
           resources (fst (Apply tagged ?p)) =
             [StateMachine c,
              Rule (IEventBus ''Input'') (Some [''Created'', ''Updated'']) (StateMachine c)]"
    by auto
  from s1 r1 s2 r2 show ?thesis by blast
qed

text \<open>
  C8. Unrecognised payload abort. \<^verbatim>\<open>OnEnterMap\<close> on a binding that is not a \<^verbatim>\<open>lambda\<close>,
  \<^verbatim>\<open>OnEnterFrom\<close> on a source that is not a \<^verbatim>\<open>source\<close> and \<^verbatim>\<open>OnEnterYield\<close> on a target
  that is neither a queue nor an \<^verbatim>\<open>eventbus\<close> return the error that names the type \<open>T\<close> of
  the payload, and return the compiler state as they found it: no state is appended to a
  chain. When the nodes \<open>pre\<close> before such a node of a pipeline are compiled without error,
  the compilation of the pipeline ends at that node with that error, in the state the
  nodes before left, and no state machine and no rule have been created. A pipeline
  with such a node at any depth is not compiled: the traversal returns an error and has
  created no state machine and no rule.
\<close>

theorem unrecognised_payload_aborts:
  "OnEnterMap (OtherBinding T) ts = (ts, Some (Error (''unkown compute type: '' @ T)))
   \<and> OnEnterFrom Type (OtherSource T) ts = (ts, Some (Error (''unkown input type: '' @ T)))
   \<and> OnEnterYield Type (OtherTarget T) ts = (ts, Some (Error (''unkown reply type: '' @ T)))
   \<and> (run (concat (map trace pre)) (NewTypeStep props) = (tsa, None) \<longrightarrow>
        Apply (pre @ AstMap (OtherBinding T) # rest) (NewTypeStep props)
          = (tsa, Some (Error (''unkown compute type: '' @ T)))
        \<and> Apply (pre @ AstFrom Type (OtherSource T) # rest) (NewTypeStep props)
          = (tsa, Some (Error (''unkown input type: '' @ T)))
        \<and> Apply (pre @ AstYield Type (OtherTarget T) # rest) (NewTypeStep props)
          = (tsa, Some (Error (''unkown reply type: '' @ T)))
        \<and> resources tsa = [])
   \<and> ((\<exists>a \<in> set root. \<not> recognised a) \<longrightarrow>
        snd (Apply root (NewTypeStep props)) \<noteq> None
        \<and> resources (fst (Apply root (NewTypeStep props))) = [])"
proof -
  have m: "OnEnterMap (OtherBinding T) s = (s, Some (Error (''unkown compute type: '' @ T)))" for s
    by (simp add: OnEnterMap_def)
  have f: "OnEnterFrom Type (OtherSource T) s = (s, Some (Error (''unkown input type: '' @ T)))" for s
    by (simp add: OnEnterFrom_def)
  have y: "OnEnterYield Type (OtherTarget T) s = (s, Some (Error (''unkown reply type: '' @ T)))" for s
    by (simp add: OnEnterYield_def)
  have e: "resources (NewTypeStep props) = []" by (simp add: NewTypeStep_def)
  have p: "Apply (pre @ AstMap (OtherBinding T) # rest) (NewTypeStep props)
          = (tsa, Some (Error (''unkown compute type: '' @ T)))
        \<and> Apply (pre @ AstFrom Type (OtherSource T) # rest) (NewTypeStep props)
          = (tsa, Some (Error (''unkown input type: '' @ T)))
        \<and> Apply (pre @ AstYield Type (OtherTarget T) # rest) (NewTypeStep props)
          = (tsa, Some (Error (''unkown reply type: '' @ T)))
        \<and> resources tsa = []"
    if r: "run (concat (map trace pre)) (NewTypeStep props) = (tsa, None)"
  proof -
    have 1: "Apply (pre @ AstMap (OtherBinding T) # rest) (NewTypeStep props)
          = (tsa, Some (Error (''unkown compute type: '' @ T)))"
      by (rule Apply_abort[OF r, where e = "EnterMap (OtherBinding T)"]) (simp_all add: m)
    have 2: "Apply (pre @ AstFrom Type (OtherSource T) # rest) (NewTypeStep props)
          = (tsa, Some (Error (''unkown input type: '' @ T)))"
      by (rule Apply_abort[OF r, where e = "EnterFrom Type (OtherSource T)"]) (simp_all add: f)
    have 3: "Apply (pre @ AstYield Type (OtherTarget T) # rest) (NewTypeStep props)
          = (tsa, Some (Error (''unkown reply type: '' @ T)))"
      by (rule Apply_abort[OF r, where e = "EnterYield Type (OtherTarget T)"]) (simp_all add: y)
    have 4: "resources tsa = []" using run_traces_resources[OF r] e by simp
    from 1 2 3 4 show ?thesis by blast
  qed
  have d: "snd (Apply root (NewTypeStep props)) \<noteq> None
        \<and> resources (fst (Apply root (NewTypeStep props))) = []"
    if u: "\<exists>a \<in> set root. \<not> recognised a"
  proof -
    have "snd (Apply root (NewTypeStep props)) \<noteq> None"
      unfolding Apply_def by (rule run_unrecognised[OF traces_unrecognised[OF u]])
    then show ?thesis using Apply_error_resources[of root "NewTypeStep props"] e by simp
  qed
  from m[of ts] f[of ts] y[of ts] p d show ?thesis by blast
qed

theorem unrecognised_payload_aborts_witness:
  defines "pre \<equiv> [AstFrom ''Account'' (From_payload (Some (IEventBus ''Input'')) []),
                  AstMap (Join_payload (IFunction ''GetUser''))]"
    and "rest \<equiv> [AstYield ''User'' (ToQueue_payload (IQueue ''Reply''))]"
    and "nested \<equiv> [AstFrom ''Account'' (From_payload (Some (IEventBus ''Input'')) []),
                    AstSeq [AstMap (Lift_payload (IFunction ''PickProduct'')),
                            AstMap (OtherBinding ''string'')],
                    AstYield ''User'' (ToQueue_payload (IQueue ''Reply''))]"
  defines "ts1 \<equiv> fst (run (concat (map trace pre)) (NewTypeStep scenario_props))"
  shows
    "run (concat (map trace pre)) (NewTypeStep scenario_props) = (ts1, None)
     \<and> map (\<lambda>c. map state_id (chain_of c)) (stack ts1) = [[''MapGetUser'']]
     \<and> Apply (pre @ AstMap (OtherBinding ''string'') # rest) (NewTypeStep scenario_props)
          = (ts1, Some (Error ''unkown compute type: string''))
     \<and> Apply (pre @ AstFrom ''Account'' (OtherSource ''int'') # rest) (NewTypeStep scenario_props)
          = (ts1, Some (Error ''unkown input type: int''))
     \<and> Apply (pre @ AstYield ''User'' (OtherTarget ''bool'') # rest) (NewTypeStep scenario_props)
          = (ts1, Some (Error ''unkown reply type: bool''))
     \<and> resources ts1 = []
     \<and> snd (Apply nested (NewTypeStep scenario_props)) \<noteq> None
     \<and> resources (fst (Apply nested (NewTypeStep scenario_props))) = []"
proof -
  have "snd (run (concat (map trace pre)) (NewTypeStep scenario_props)) = None"
    unfolding pre_def by (simp add: scenario_props_def run_defs)
  then have h: "run (concat (map trace pre)) (NewTypeStep scenario_props) = (ts1, None)"
    unfolding ts1_def by (simp add: prod_eq_iff)
  have v: "map (\<lambda>c. map state_id (chain_of c)) (stack ts1) = [[''MapGetUser'']]"
    unfolding ts1_def pre_def by (simp add: scenario_props_def run_defs)
  have u: "\<exists>a \<in> set nested. \<not> recognised a"
    unfolding nested_def by (simp add: From_payload_def Lift_payload_def ToQueue_payload_def)
  note a = unrecognised_payload_aborts[where pre = pre and rest = rest and props = scenario_props
      and tsa = ts1 and T = "''string''"]
  note b = unrecognised_payload_aborts[where pre = pre and rest = rest and props = scenario_props
      and tsa = ts1 and T = "''int''" and Type = "''Account''"]
  note c = unrecognised_payload_aborts[where pre = pre and rest = rest and props = scenario_props
      and tsa = ts1 and T = "''bool''" and Type = "''User''" and root = nested]
  from a h have 1: "Apply (pre @ AstMap (OtherBinding ''string'') # rest) (NewTypeStep scenario_props)
          = (ts1, Some (Error ''unkown compute type: string''))" by simp
  from b h have 2: "Apply (pre @ AstFrom ''Account'' (OtherSource ''int'') # rest) (NewTypeStep scenario_props)
          = (ts1, Some (Error ''unkown input type: int''))" by simp
  from c h have 3: "Apply (pre @ AstYield ''User'' (OtherTarget ''bool'') # rest) (NewTypeStep scenario_props)
          = (ts1, Some (Error ''unkown reply type: bool''))" by simp
  from c h have 4: "resources ts1 = []" by blast
  from c u have 5: "snd (Apply nested (NewTypeStep scenario_props)) \<noteq> None
     \<and> resources (fst (Apply nested (NewTypeStep scenario_props))) = []" by blast
  from h v 1 2 3 4 5 show ?thesis by blast
qed

text \<open>
  C5. Missing source and unbalanced nesting. \<^verbatim>\<open>OnLeaveMorphism\<close> in a state with more or
  fewer than one open level returns the error \<open>bad definition of compute pipeline\<close>; with
  one open level and no event bus it returns the error
  \<open>undefined event source for compute pipeline\<close>. In both cases the compiler state is
  returned as it was: no state machine and no rule are created. When the nodes of a
  pipeline with no \<^verbatim>\<open>From\<close> node at any depth all compile, the compilation ends with the
  second error. Whatever the pipeline, a compilation that ends with an error has created
  no state machine and no rule.
\<close>

theorem missing_source_failure:
  "(length (stack ts) \<noteq> 1 \<longrightarrow>
      OnLeaveMorphism ts = (ts, Some (Error ''bad definition of compute pipeline'')))
   \<and> (length (stack ts) = 1 \<and> bus ts = None \<longrightarrow>
      OnLeaveMorphism ts = (ts, Some (Error ''undefined event source for compute pipeline'')))
   \<and> ((\<forall>a \<in> set root. \<not> has_from a) \<and>
       run (concat (map trace root)) (NewTypeStep props) = (tsa, None) \<longrightarrow>
         Apply root (NewTypeStep props)
           = (tsa, Some (Error ''undefined event source for compute pipeline''))
         \<and> resources tsa = [])
   \<and> (snd (Apply pipeline (NewTypeStep props)) \<noteq> None \<longrightarrow>
         resources (fst (Apply pipeline (NewTypeStep props))) = [])"
proof -
  have 1: "OnLeaveMorphism ts = (ts, Some (Error ''bad definition of compute pipeline''))"
    if "length (stack ts) \<noteq> 1"
    using that by (simp add: OnLeaveMorphism_def)
  have 2: "OnLeaveMorphism s = (s, Some (Error ''undefined event source for compute pipeline''))"
    if "length (stack s) = 1 \<and> bus s = None" for s
    using that by (simp add: OnLeaveMorphism_def)
  have e: "resources (NewTypeStep props) = []" "bus (NewTypeStep props) = None"
    by (simp_all add: NewTypeStep_def)
  have 3: "Apply root (NewTypeStep props)
           = (tsa, Some (Error ''undefined event source for compute pipeline''))
         \<and> resources tsa = []"
    if h: "(\<forall>a \<in> set root. \<not> has_from a) \<and>
       run (concat (map trace root)) (NewTypeStep props) = (tsa, None)"
  proof -
    from h have nf: "\<forall>a \<in> set root. \<not> has_from a"
      and r: "run (concat (map trace root)) (NewTypeStep props) = (tsa, None)" by simp_all
    have "bus tsa = bus (NewTypeStep props)"
      using run_source[OF traces_no_EnterFrom[OF nf], of "NewTypeStep props"] r by simp
    then have b: "bus tsa = None" by (simp add: e)
    have l: "length (stack tsa) = 1"
      by (rule lvl_one[OF run_traces_lvl[OF lvl_NewTypeStep r]])
    have "Apply root (NewTypeStep props) = OnLeaveMorphism tsa"
      using r by (simp add: Apply_split)
    then have a: "Apply root (NewTypeStep props)
           = (tsa, Some (Error ''undefined event source for compute pipeline''))"
      using 2[of tsa] l b by simp
    have "resources tsa = []" using run_traces_resources[OF r] e by simp
    with a show ?thesis by simp
  qed
  have 4: "resources (fst (Apply pipeline (NewTypeStep props))) = []"
    if "snd (Apply pipeline (NewTypeStep props)) \<noteq> None"
    using Apply_error_resources[OF that] e by simp
  from 1 2[of ts] 3 4 show ?thesis by blast
qed

theorem missing_source_failure_witness:
  defines "two \<equiv> fst (OnEnterSeq (NewTypeStep scenario_props))"
    and "none \<equiv> NewTypeStep scenario_props\<lparr> stack := [] \<rparr>"
    and "headless \<equiv> [AstMap (Join_payload (IFunction ''GetUser'')),
                      AstSeq [AstMap (Lift_payload (IFunction ''PickProduct''))],
                      AstYield ''User'' (ToQueue_payload (IQueue ''Reply''))]"
  defines "tsa \<equiv> fst (run (concat (map trace headless)) (NewTypeStep scenario_props))"
  shows
    "length (stack two) = 2
     \<and> OnLeaveMorphism two = (two, Some (Error ''bad definition of compute pipeline''))
     \<and> length (stack none) = 0
     \<and> OnLeaveMorphism none = (none, Some (Error ''bad definition of compute pipeline''))
     \<and> length (stack (NewTypeStep scenario_props)) = 1 \<and> bus (NewTypeStep scenario_props) = None
     \<and> OnLeaveMorphism (NewTypeStep scenario_props) =
          (NewTypeStep scenario_props, Some (Error ''undefined event source for compute pipeline''))
     \<and> run (concat (map trace headless)) (NewTypeStep scenario_props) = (tsa, None)
     \<and> map (\<lambda>c. map state_id (chain_of c)) (stack tsa) =
          [[''MapGetUser'',
            ''Seq'' @ take 8 (hex_EncodeToString (sha256_Sum256 ''MapPickProduct'')), ''Sink'']]
     \<and> Apply headless (NewTypeStep scenario_props)
          = (tsa, Some (Error ''undefined event source for compute pipeline''))
     \<and> resources tsa = []
     \<and> resources (fst (Apply headless (NewTypeStep scenario_props))) = []"
proof -
  have l2: "length (stack two) = 2" unfolding two_def by (simp add: run_defs)
  have l0: "length (stack none) = 0" unfolding none_def by simp
  have l1: "length (stack (NewTypeStep scenario_props)) = 1 \<and> bus (NewTypeStep scenario_props) = None"
    by (simp add: run_defs)
  have "snd (run (concat (map trace headless)) (NewTypeStep scenario_props)) = None"
    unfolding headless_def by (simp add: scenario_props_def run_defs)
  then have h: "run (concat (map trace headless)) (NewTypeStep scenario_props) = (tsa, None)"
    unfolding tsa_def by (simp add: prod_eq_iff)
  have v: "map (\<lambda>c. map state_id (chain_of c)) (stack tsa) =
          [[''MapGetUser'',
            ''Seq'' @ take 8 (hex_EncodeToString (sha256_Sum256 ''MapPickProduct'')), ''Sink'']]"
    unfolding tsa_def headless_def by (simp add: scenario_props_def run_defs)
  have nf: "\<forall>a \<in> set headless. \<not> has_from a"
    unfolding headless_def by (simp add: Join_payload_def Lift_payload_def ToQueue_payload_def)
  note a = missing_source_failure[where ts = two]
  note b = missing_source_failure[where ts = none]
  note c = missing_source_failure[where ts = "NewTypeStep scenario_props" and root = headless
      and props = scenario_props and tsa = tsa and pipeline = headless]
  from a l2 have 1: "OnLeaveMorphism two = (two, Some (Error ''bad definition of compute pipeline''))"
    by simp
  from b l0 have 2: "OnLeaveMorphism none = (none, Some (Error ''bad definition of compute pipeline''))"
    by simp
  from c l1 have 3: "OnLeaveMorphism (NewTypeStep scenario_props) =
          (NewTypeStep scenario_props, Some (Error ''undefined event source for compute pipeline''))"
    by blast
  from c nf h have 4: "Apply headless (NewTypeStep scenario_props)
          = (tsa, Some (Error ''undefined event source for compute pipeline''))
     \<and> resources tsa = []" by blast
  then have "snd (Apply headless (NewTypeStep scenario_props)) \<noteq> None" by simp
  with c have 5: "resources (fst (Apply headless (NewTypeStep scenario_props))) = []" by blast
  from l2 1 l0 2 l1 3 h v 4 5 show ?thesis by blast
qed



text \<open>
  C2. Concurrency propagation. Let a \<^verbatim>\<open>Seq\<close> node whose first node is a \<^verbatim>\<open>Map\<close> of the
  binding \<open>F\<close> be compiled without error, from a state \<open>ts\<close> whose stack is not empty and
  whose names run parallel to it, to the state \<open>ts'\<close>. Then \<open>F\<close> is a \<^verbatim>\<open>lambda\<close>, \<open>ts'\<close> has
  the levels of \<open>ts\<close>, and the chain of the last level is the one it was in \<open>ts\<close> followed
  by one more state: the fan-out state (\<^verbatim>\<open>Map\<close> with items path \<open>$.Payload\<close>) emitted by
  \<^verbatim>\<open>OnLeaveSeq\<close> for this node, whose sub-chain starts with the invocation of the function
  of \<open>F\<close>. The concurrency of the fan-out state is the one recorded in \<open>F\<close>: it is \<open>n\<close> when
  \<open>F\<close> was built by \<^verbatim>\<open>LiftP\<close> with the bound \<open>n\<close>, and 1 when \<open>F\<close> was built by \<^verbatim>\<open>Lift\<close> or
  by \<^verbatim>\<open>Join\<close>.
\<close>

theorem concurrency_propagation:
  assumes "stack ts \<noteq> []" and "length (names ts) = length (stack ts)"
    and "run (trace (AstSeq (AstMap F # rest))) ts = (ts', None)"
  shows
    "(\<exists>l i cs ext. F = Lambda l \<and> stack ts' = butlast (stack ts) @
         [Some (chain_of (last (stack ts)) @
            [MapState i ''$.Payload'' (concurency l)
               (LambdaInvoke (''Map'' @ function_id (lambda_f l)) ''$'' (lambda_f l) cs # ext)])])
     \<and> (F = LiftP_payload n fn \<longrightarrow>
        (\<exists>i cs ext. stack ts' = butlast (stack ts) @
           [Some (chain_of (last (stack ts)) @
              [MapState i ''$.Payload'' n
                 (LambdaInvoke (''Map'' @ function_id fn) ''$'' fn cs # ext)])]))
     \<and> (F = Lift_payload fn \<longrightarrow>
        (\<exists>i cs ext. stack ts' = butlast (stack ts) @
           [Some (chain_of (last (stack ts)) @
              [MapState i ''$.Payload'' 1
                 (LambdaInvoke (''Map'' @ function_id fn) ''$'' fn cs # ext)])]))
     \<and> (F = Join_payload fn \<longrightarrow>
        (\<exists>i cs ext. stack ts' = butlast (stack ts) @
           [Some (chain_of (last (stack ts)) @
              [MapState i ''$.Payload'' 1
                 (LambdaInvoke (''Map'' @ function_id fn) ''$'' fn cs # ext)])]))"
proof -
  let ?seq = "AstMap F # rest"
  from run_Seq_None[OF assms(3)] obtain ts1 where
    b: "run (EnterSeq ?seq # concat (map trace ?seq)) ts = (ts1, None)"
    and o: "OnLeaveSeq ?seq ts1 = (ts', None)" by blast
  obtain l where F: "F = Lambda l"
  proof (cases F)
    case (Lambda l)
    then show ?thesis by (rule that)
  next
    case (OtherBinding T)
    have "snd (run (EnterSeq ?seq # concat (map trace ?seq)) ts) \<noteq> None"
      by (rule run_unrecognised) (simp add: OtherBinding)
    then show ?thesis using b by simp
  qed
  let ?ts0 = "ts\<lparr> stack := stack ts @ [None], names := names ts @ [''''], args := ''$'' \<rparr>"
  have w0: "stack ?ts0 \<noteq> []" "length (names ?ts0) = length (stack ?ts0)"
    using assms(2) by simp_all
  have l0: "lvl (stack ts) (names ts) ?ts0" using assms(2) by (simp add: lvl_def)
  have "run (trace (AstMap (Lambda l)) @ concat (map trace rest)) ?ts0 = (ts1, None)"
    using b F by (simp add: OnEnterSeq_def)
  from run_append_None[OF this] obtain tsm where
    m: "run (trace (AstMap (Lambda l))) ?ts0 = (tsm, None)"
    and r: "run (concat (map trace rest)) tsm = (ts1, None)" by blast
  let ?inv = "LambdaInvoke (''Map'' @ function_id (lambda_f l)) ''$'' (lambda_f l)
                (case DeadLetterQueue ts of
                   None \<Rightarrow> []
                 | Some q \<Rightarrow>
                     [([SqsSendMessage (''Try'' @ function_id (lambda_f l)) q ''$'',
                        FailState (''Err'' @ function_id (lambda_f l))], ''$.error'')])"
  have cm: "chain_of (last (stack tsm)) = [?inv]"
    using m unfolding run_Map[OF w0] by auto
  have lm: "lvl (stack ts) (names ts) tsm" by (rule run_trace_lvl[OF l0 m])
  from nodes_extend[OF lm r] cm obtain ext where
    c1: "chain_of (last (stack ts1)) = ?inv # ext" by auto
  have l1: "lvl (stack ts) (names ts) ts1" by (rule run_traces_lvl[OF lm r])
  from c1 obtain c where c: "last (stack ts1) = Some c" and cc: "c = ?inv # ext"
    by (cases "last (stack ts1)") auto
  from OnLeaveSeq_lvl2[OF assms(1,2) l1 c, of "AstMap F" rest] o F
  have s: "stack ts' = butlast (stack ts) @ [Some (chain_of (last (stack ts)) @
      [MapState (''Seq'' @ take 8 (hex_EncodeToString (sha256_Sum256 (last (names ts1)))))
         ''$.Payload'' (concurency l) (?inv # ext)])]"
    by (auto simp: cc)
  have 4: "\<exists>l i cs ext. F = Lambda l \<and> stack ts' = butlast (stack ts) @
         [Some (chain_of (last (stack ts)) @
            [MapState i ''$.Payload'' (concurency l)
               (LambdaInvoke (''Map'' @ function_id (lambda_f l)) ''$'' (lambda_f l) cs # ext)])]"
    using F s by blast
  have 1: "\<exists>i cs ext. stack ts' = butlast (stack ts) @
           [Some (chain_of (last (stack ts)) @
              [MapState i ''$.Payload'' n
                 (LambdaInvoke (''Map'' @ function_id fn) ''$'' fn cs # ext)])]"
    if "F = LiftP_payload n fn"
  proof -
    from that F have e: "concurency l = n" "lambda_f l = fn" by (auto simp: LiftP_payload_def)
    show ?thesis using s unfolding e by blast
  qed
  have 2: "\<exists>i cs ext. stack ts' = butlast (stack ts) @
           [Some (chain_of (last (stack ts)) @
              [MapState i ''$.Payload'' 1
                 (LambdaInvoke (''Map'' @ function_id fn) ''$'' fn cs # ext)])]"
    if "F = Lift_payload fn"
  proof -
    from that F have e: "concurency l = 1" "lambda_f l = fn" by (auto simp: Lift_payload_def)
    show ?thesis using s unfolding e by blast
  qed
  have 3: "\<exists>i cs ext. stack ts' = butlast (stack ts) @
           [Some (chain_of (last (stack ts)) @
              [MapState i ''$.Payload'' 1
                 (LambdaInvoke (''Map'' @ function_id fn) ''$'' fn cs # ext)])]"
    if "F = Join_payload fn"
  proof -
    from that F have e: "concurency l = 1" "lambda_f l = fn" by (auto simp: Join_payload_def)
    show ?thesis using s unfolding e by blast
  qed
  from 4 1 2 3 show ?thesis by blast
qed
theorem concurrency_propagation_witness:
  defines "ts \<equiv> fst (run (take 7 (trace_morphism scenario)) (NewTypeStep scenario_props))"
    and "rest \<equiv> [AstSeq [AstMap (Lift_payload (IFunction ''MailTo''))]]"
  defines "tsp \<equiv> fst (run (trace (AstSeq (AstMap (LiftP_payload 5 (IFunction ''PickProduct'')) # rest))) ts)"
    and "tsl \<equiv> fst (run (trace (AstSeq (AstMap (Lift_payload (IFunction ''PickProduct'')) # rest))) ts)"
    and "tsj \<equiv> fst (run (trace (AstSeq (AstMap (Join_payload (IFunction ''PickProduct'')) # rest))) ts)"
  shows
    "map (\<lambda>c. map state_id (chain_of c)) (stack ts) = [[''MapGetUser'', ''MapPickCategory'']]
     \<and> run (trace (AstSeq (AstMap (LiftP_payload 5 (IFunction ''PickProduct'')) # rest))) ts = (tsp, None)
     \<and> (\<exists>i cs ext. stack tsp = butlast (stack ts) @
           [Some (chain_of (last (stack ts)) @
              [MapState i ''$.Payload'' 5
                 (LambdaInvoke (''Map'' @ function_id (IFunction ''PickProduct'')) ''$''
                    (IFunction ''PickProduct'') cs # ext)])])
     \<and> run (trace (AstSeq (AstMap (Lift_payload (IFunction ''PickProduct'')) # rest))) ts = (tsl, None)
     \<and> (\<exists>i cs ext. stack tsl = butlast (stack ts) @
           [Some (chain_of (last (stack ts)) @
              [MapState i ''$.Payload'' 1
                 (LambdaInvoke (''Map'' @ function_id (IFunction ''PickProduct'')) ''$''
                    (IFunction ''PickProduct'') cs # ext)])])
     \<and> run (trace (AstSeq (AstMap (Join_payload (IFunction ''PickProduct'')) # rest))) ts = (tsj, None)
     \<and> (\<exists>i cs ext. stack tsj = butlast (stack ts) @
           [Some (chain_of (last (stack ts)) @
              [MapState i ''$.Payload'' 1
                 (LambdaInvoke (''Map'' @ function_id (IFunction ''PickProduct'')) ''$''
                    (IFunction ''PickProduct'') cs # ext)])])"
proof -
  have v: "map (\<lambda>c. map state_id (chain_of c)) (stack ts) = [[''MapGetUser'', ''MapPickCategory'']]"
    unfolding ts_def by (simp add: scenario_def scenario_props_def run_defs)
  have w1: "stack ts \<noteq> []" and w2: "length (names ts) = length (stack ts)"
    unfolding ts_def by (simp_all add: scenario_def scenario_props_def run_defs)
  have "snd (run (trace (AstSeq (AstMap (LiftP_payload 5 (IFunction ''PickProduct'')) # rest))) ts) = None"
    unfolding ts_def rest_def by (simp add: scenario_def scenario_props_def run_defs)
  then have rp: "run (trace (AstSeq (AstMap (LiftP_payload 5 (IFunction ''PickProduct'')) # rest))) ts = (tsp, None)"
    unfolding tsp_def by (simp add: prod_eq_iff)
  have "snd (run (trace (AstSeq (AstMap (Lift_payload (IFunction ''PickProduct'')) # rest))) ts) = None"
    unfolding ts_def rest_def by (simp add: scenario_def scenario_props_def run_defs)
  then have rl: "run (trace (AstSeq (AstMap (Lift_payload (IFunction ''PickProduct'')) # rest))) ts = (tsl, None)"
    unfolding tsl_def by (simp add: prod_eq_iff)
  have "snd (run (trace (AstSeq (AstMap (Join_payload (IFunction ''PickProduct'')) # rest))) ts) = None"
    unfolding ts_def rest_def by (simp add: scenario_def scenario_props_def run_defs)
  then have rj: "run (trace (AstSeq (AstMap (Join_payload (IFunction ''PickProduct'')) # rest))) ts = (tsj, None)"
    unfolding tsj_def by (simp add: prod_eq_iff)
  note p = concurrency_propagation[OF w1 w2 rp, where n = 5 and fn = "IFunction ''PickProduct''"]
  note l = concurrency_propagation[OF w1 w2 rl, where fn = "IFunction ''PickProduct''"]
  note j = concurrency_propagation[OF w1 w2 rj, where fn = "IFunction ''PickProduct''"]
  from p have 1: "\<exists>i cs ext. stack tsp = butlast (stack ts) @
           [Some (chain_of (last (stack ts)) @
              [MapState i ''$.Payload'' 5
                 (LambdaInvoke (''Map'' @ function_id (IFunction ''PickProduct'')) ''$''
                    (IFunction ''PickProduct'') cs # ext)])]" by blast
  from l have 2: "\<exists>i cs ext. stack tsl = butlast (stack ts) @
           [Some (chain_of (last (stack ts)) @
              [MapState i ''$.Payload'' 1
                 (LambdaInvoke (''Map'' @ function_id (IFunction ''PickProduct'')) ''$''
                    (IFunction ''PickProduct'') cs # ext)])]" by blast
  from j have 3: "\<exists>i cs ext. stack tsj = butlast (stack ts) @
           [Some (chain_of (last (stack ts)) @
              [MapState i ''$.Payload'' 1
                 (LambdaInvoke (''Map'' @ function_id (IFunction ''PickProduct'')) ''$''
                    (IFunction ''PickProduct'') cs # ext)])]" by blast
  from v rp 1 rl 2 rj 3 show ?thesis by blast
qed

text \<open>
  C3. Dead-letter wiring. Let \<open>S\<close> be the compiler state after any number of callbacks
  of the traversal of any pipeline, started from \<^verbatim>\<open>NewTypeStep\<close> with the properties
  \<open>props\<close>. The dead-letter queue of \<open>S\<close> is the one of \<open>props\<close>. \<^verbatim>\<open>OnEnterMap\<close> on a
  \<^verbatim>\<open>lambda\<close> in \<open>S\<close> appends one invocation state to the last chain: with no catch branch
  when \<open>props\<close> has no dead-letter queue, and when it has the queue \<open>q\<close>, with exactly one,
  whose handler sends the input to \<open>q\<close> (state \<open>Try\<close>...) and then fails (state \<open>Err\<close>...),
  the error recorded at \<open>$.error\<close>. Every invocation state of every chain of \<open>S\<close>, at any
  depth of fan-out, and of every state machine created, has these catch branches and no
  other; so have the invocation states of the state machine that a compilation without
  error returns. No other kind of state has a catch branch.
\<close>

theorem dead_letter_wiring:
  fixes n :: nat and root :: "ast list" and props :: typeStepProps
  defines "S \<equiv> fst (run (take n (trace_morphism root)) (NewTypeStep props))"
  shows
    "DeadLetterQueue S = props_DeadLetterQueue props
     \<and> OnEnterMap (Lambda l) S =
         (S\<lparr> stack := butlast (stack S) @ [Some (chain_of (last (stack S)) @
                 [LambdaInvoke (''Map'' @ function_id (lambda_f l)) (args S) (lambda_f l)
                    (case props_DeadLetterQueue props of
                       None \<Rightarrow> []
                     | Some q \<Rightarrow>
                         [([SqsSendMessage (''Try'' @ function_id (lambda_f l)) q ''$'',
                            FailState (''Err'' @ function_id (lambda_f l))], ''$.error'')])])],
              names := butlast (names S) @ [last (names S) @ ''Map'' @ function_id (lambda_f l)] \<rparr>,
          None)
     \<and> chains_ok (catch_ok (props_DeadLetterQueue props)) (stack S)
     \<and> resources_ok (catch_ok (props_DeadLetterQueue props)) (resources S)
     \<and> (Apply root (NewTypeStep props) = (ts', None) \<longrightarrow>
          (\<exists>c b pat. resources ts' = [StateMachine c, Rule b pat (StateMachine c)] \<and>
             (\<forall>s \<in> set c. catch_ok (props_DeadLetterQueue props) s)))"
proof -
  have i: "catch_inv (props_DeadLetterQueue props) S" unfolding S_def by (rule catch_inv_run)
  then have q: "DeadLetterQueue S = props_DeadLetterQueue props"
    and c: "chains_ok (catch_ok (props_DeadLetterQueue props)) (stack S)"
    and r: "resources_ok (catch_ok (props_DeadLetterQueue props)) (resources S)"
    by (simp_all add: catch_inv_def)
  have "at_least [] [] S" unfolding S_def by (rule reachable_at_least)
  then have w: "stack S \<noteq> []" "length (names S) = length (stack S)"
    by (simp_all add: at_least_empty_iff)
  have m: "OnEnterMap (Lambda l) S =
         (S\<lparr> stack := butlast (stack S) @ [Some (chain_of (last (stack S)) @
                 [LambdaInvoke (''Map'' @ function_id (lambda_f l)) (args S) (lambda_f l)
                    (case props_DeadLetterQueue props of
                       None \<Rightarrow> []
                     | Some q \<Rightarrow>
                         [([SqsSendMessage (''Try'' @ function_id (lambda_f l)) q ''$'',
                            FailState (''Err'' @ function_id (lambda_f l))], ''$.error'')])])],
              names := butlast (names S) @ [last (names S) @ ''Map'' @ function_id (lambda_f l)] \<rparr>,
          None)"
    unfolding OnEnterMap_Lambda q by (simp add: ts_append_last[OF w])
  have a: "\<exists>c b pat. resources ts' = [StateMachine c, Rule b pat (StateMachine c)] \<and>
             (\<forall>s \<in> set c. catch_ok (props_DeadLetterQueue props) s)"
    if ok: "Apply root (NewTypeStep props) = (ts', None)"
  proof -
    have "catch_inv (props_DeadLetterQueue props) (fst (Apply root (NewTypeStep props)))"
      unfolding Apply_def by (rule catch_inv_run)
    then have ro: "resources_ok (catch_ok (props_DeadLetterQueue props)) (resources ts')"
      using ok by (simp add: catch_inv_def)
    from Apply_ok[OF ok] obtain ts1 b c where
      "ts' = ts1\<lparr> resources := resources (NewTypeStep props) @
                    [StateMachine c, Rule b (eventPattern ts1) (StateMachine c)] \<rparr>" by blast
    then have e: "resources ts' = [StateMachine c, Rule b (eventPattern ts1) (StateMachine c)]"
      by (simp add: NewTypeStep_def)
    then have "\<forall>s \<in> set c. catch_ok (props_DeadLetterQueue props) s"
      using ro by (simp add: resources_ok_def)
    then show ?thesis using e by blast
  qed
  from q m c r a show ?thesis by blast
qed

theorem dead_letter_wiring_witness:
  defines "plain \<equiv> \<lparr> props_DeadLetterQueue = None, props_SeqConcurrency = None \<rparr>"
    and "l \<equiv> \<lparr> concurency = 1, lambda_f = IFunction ''GetUser'' \<rparr>"
  defines "S \<equiv> fst (run (take 3 (trace_morphism scenario)) (NewTypeStep scenario_props))"
    and "P \<equiv> fst (run (take 3 (trace_morphism scenario)) (NewTypeStep plain))"
  shows
    "snd (Apply scenario (NewTypeStep scenario_props)) = None
     \<and> (\<exists>c b pat. resources (fst (Apply scenario (NewTypeStep scenario_props)))
             = [StateMachine c, Rule b pat (StateMachine c)] \<and>
           (\<forall>s \<in> set c. catch_ok (Some (IQueue ''Reply'')) s))
     \<and> snd (Apply scenario (NewTypeStep plain)) = None
     \<and> (\<exists>c b pat. resources (fst (Apply scenario (NewTypeStep plain)))
             = [StateMachine c, Rule b pat (StateMachine c)] \<and>
           (\<forall>s \<in> set c. catch_ok None s))
     \<and> OnEnterMap (Lambda l) S =
         (S\<lparr> stack := [Some [LambdaInvoke ''MapGetUser'' ''$.detail'' (IFunction ''GetUser'')
                    [([SqsSendMessage ''TryGetUser'' (IQueue ''Reply'') ''$'',
                       FailState ''ErrGetUser''], ''$.error'')]]],
              names := [''MapGetUser''] \<rparr>, None)
     \<and> OnEnterMap (Lambda l) P =
         (P\<lparr> stack := [Some [LambdaInvoke ''MapGetUser'' ''$.detail'' (IFunction ''GetUser'') []]],
              names := [''MapGetUser''] \<rparr>, None)"
proof -
  have s1: "snd (Apply scenario (NewTypeStep scenario_props)) = None"
    by (simp add: Apply_def scenario_def scenario_props_def run_defs)
  have s2: "snd (Apply scenario (NewTypeStep plain)) = None"
    unfolding plain_def by (simp add: Apply_def scenario_def run_defs)
  have a1: "Apply scenario (NewTypeStep scenario_props)
      = (fst (Apply scenario (NewTypeStep scenario_props)), None)"
    using s1 by (simp add: prod_eq_iff)
  have a2: "Apply scenario (NewTypeStep plain) = (fst (Apply scenario (NewTypeStep plain)), None)"
    using s2 by (simp add: prod_eq_iff)
  have d1: "props_DeadLetterQueue scenario_props = Some (IQueue ''Reply'')"
    by (simp add: scenario_props_def)
  have d2: "props_DeadLetterQueue plain = None" by (simp add: plain_def)
  have vS: "stack S = [None]" "names S = ['''']" "args S = ''$.detail''"
    unfolding S_def by (simp_all add: scenario_def scenario_props_def run_defs)
  have vP: "stack P = [None]" "names P = ['''']" "args P = ''$.detail''"
    unfolding P_def plain_def by (simp_all add: scenario_def run_defs)
  note t1 = dead_letter_wiring[where n = 3 and root = scenario and props = scenario_props
      and l = l and ts' = "fst (Apply scenario (NewTypeStep scenario_props))",
      folded S_def, unfolded d1]
  note t2 = dead_letter_wiring[where n = 3 and root = scenario and props = plain
      and l = l and ts' = "fst (Apply scenario (NewTypeStep plain))",
      folded P_def, unfolded d2]
  from t1 a1 have 1: "\<exists>c b pat. resources (fst (Apply scenario (NewTypeStep scenario_props)))
             = [StateMachine c, Rule b pat (StateMachine c)] \<and>
           (\<forall>s \<in> set c. catch_ok (Some (IQueue ''Reply'')) s)" by blast
  from t2 a2 have 2: "\<exists>c b pat. resources (fst (Apply scenario (NewTypeStep plain)))
             = [StateMachine c, Rule b pat (StateMachine c)] \<and>
           (\<forall>s \<in> set c. catch_ok None s)" by blast
  from t1 have 3: "OnEnterMap (Lambda l) S =
         (S\<lparr> stack := [Some [LambdaInvoke ''MapGetUser'' ''$.detail'' (IFunction ''GetUser'')
                    [([SqsSendMessage ''TryGetUser'' (IQueue ''Reply'') ''$'',
                       FailState ''ErrGetUser''], ''$.error'')]]],
              names := [''MapGetUser''] \<rparr>, None)"
    by (simp add: vS l_def)
  from t2 have 4: "OnEnterMap (Lambda l) P =
         (P\<lparr> stack := [Some [LambdaInvoke ''MapGetUser'' ''$.detail'' (IFunction ''GetUser'') []]],
              names := [''MapGetUser''] \<rparr>, None)"
    by (simp add: vP l_def)
  from s1 1 s2 2 3 4 show ?thesis by blast
qed

text \<open>
  C6. Fan-out naming. Let \<open>S\<close> be the compiler state after any number of callbacks of the
  traversal of any pipeline, started from \<^verbatim>\<open>NewTypeStep\<close>. The name of every level of \<open>S\<close>
  is the concatenation of the identifiers of the states appended to the chain of that
  level, in order. Whenever \<^verbatim>\<open>OnLeaveSeq\<close> in \<open>S\<close> returns without error, the fan-out state
  it appends to the level below is named \<open>Seq\<close> followed by the first eight hexadecimal
  digits of the SHA-256 digest of the concatenation of the identifiers of the states
  of the sub-chain it closes, and that sub-chain is the processor of the fan-out state.
  Every fan-out state of every chain of \<open>S\<close>, at any depth, and of the state machine that
  a compilation without error returns, has the name that this function gives for its own
  sub-chain. The name depends on nothing else. Two compilations of a pipeline, whatever
  the properties (the dead-letter queue) each one was started with, have the same
  outcome after the same number of callbacks and derive the same names: their states
  differ in nothing but the catch branches.
\<close>

theorem fan_out_naming:
  fixes n :: nat and root :: "ast list" and props :: typeStepProps
  defines "S \<equiv> fst (run (take n (trace_morphism root)) (NewTypeStep props))"
  shows
    "names S = map (\<lambda>c. concat (map state_id (chain_of c))) (stack S)
     \<and> (OnLeaveSeq seq S = (S', None) \<longrightarrow>
          stack S' = butlast (butlast (stack S)) @
            [Some (chain_of (last (butlast (stack S))) @
               [MapState
                  (''Seq'' @ take 8 (hex_EncodeToString (sha256_Sum256
                      (concat (map state_id (chain_of (last (stack S))))))))
                  ''$.Payload'' (case hd seq of AstMap (Lambda l) \<Rightarrow> concurency l | _ \<Rightarrow> 1)
                  (chain_of (last (stack S)))])])
     \<and> chains_ok seq_named (stack S)
     \<and> resources_ok seq_named (resources S)
     \<and> (Apply root (NewTypeStep props) = (ts', None) \<longrightarrow>
          (\<exists>c b pat. resources ts' = [StateMachine c, Rule b pat (StateMachine c)] \<and>
             (\<forall>s \<in> set c. seq_named s)))
     \<and> snd (run (take n (trace_morphism root)) (NewTypeStep other))
         = snd (run (take n (trace_morphism root)) (NewTypeStep props))
     \<and> names (fst (run (take n (trace_morphism root)) (NewTypeStep other))) = names S
     \<and> map (map_option (map strip)) (stack (fst (run (take n (trace_morphism root)) (NewTypeStep other))))
         = map (map_option (map strip)) (stack S)"
proof -
  note two = run_alike[OF alike_NewTypeStep, of "take n (trace_morphism root)" other props]
  from two have d1: "snd (run (take n (trace_morphism root)) (NewTypeStep other))
         = snd (run (take n (trace_morphism root)) (NewTypeStep props))" by simp
  from two have d2: "names (fst (run (take n (trace_morphism root)) (NewTypeStep other))) = names S"
    unfolding S_def by (simp add: alike_def)
  from two have d3: "map (map_option (map strip))
          (stack (fst (run (take n (trace_morphism root)) (NewTypeStep other))))
         = map (map_option (map strip)) (stack S)"
    unfolding S_def by (simp add: alike_def)
  have i: "names_inv S" unfolding S_def by (rule names_inv_run)
  then have nm: "names S = map (\<lambda>c. concat (map state_id (chain_of c))) (stack S)"
    and c: "chains_ok seq_named (stack S)"
    and r: "resources_ok seq_named (resources S)"
    by (simp_all add: names_inv_def chain_ids_def)
  have "at_least [] [] S" unfolding S_def by (rule reachable_at_least)
  then have w: "stack S \<noteq> []" "length (names S) = length (stack S)"
    by (simp_all add: at_least_empty_iff)
  have ln: "last (names S) = concat (map state_id (chain_of (last (stack S))))"
    using w(1) by (subst nm) (simp add: last_map)
  have p: "stack S' = butlast (butlast (stack S)) @
            [Some (chain_of (last (butlast (stack S))) @
               [MapState
                  (''Seq'' @ take 8 (hex_EncodeToString (sha256_Sum256
                      (concat (map state_id (chain_of (last (stack S))))))))
                  ''$.Payload'' (case hd seq of AstMap (Lambda l) \<Rightarrow> concurency l | _ \<Rightarrow> 1)
                  (chain_of (last (stack S)))])]"
    if ok: "OnLeaveSeq seq S = (S', None)"
    using OnLeaveSeq_pop[OF w ok] unfolding ln by simp
  have a: "\<exists>c b pat. resources ts' = [StateMachine c, Rule b pat (StateMachine c)] \<and>
             (\<forall>s \<in> set c. seq_named s)"
    if ok: "Apply root (NewTypeStep props) = (ts', None)"
  proof -
    have "names_inv (fst (Apply root (NewTypeStep props)))"
      unfolding Apply_def by (rule names_inv_run)
    then have ro: "resources_ok seq_named (resources ts')"
      using ok by (simp add: names_inv_def)
    from Apply_ok[OF ok] obtain ts1 b c where
      "ts' = ts1\<lparr> resources := resources (NewTypeStep props) @
                    [StateMachine c, Rule b (eventPattern ts1) (StateMachine c)] \<rparr>" by blast
    then have e: "resources ts' = [StateMachine c, Rule b (eventPattern ts1) (StateMachine c)]"
      by (simp add: NewTypeStep_def)
    then have "\<forall>s \<in> set c. seq_named s"
      using ro by (simp add: resources_ok_def)
    then show ?thesis using e by blast
  qed
  from nm p c r a d1 d2 d3 show ?thesis by blast
qed

theorem fan_out_naming_witness:
  defines "S \<equiv> fst (run (take 14 (trace_morphism scenario)) (NewTypeStep scenario_props))"
    and "seq \<equiv> [AstMap (Lift_payload (IFunction ''PickProduct'')),
                 AstSeq [AstMap (Lift_payload (IFunction ''MailTo''))]]"
  defines "S' \<equiv> fst (OnLeaveSeq seq S)"
    and "plain \<equiv> \<lparr> props_DeadLetterQueue = None, props_SeqConcurrency = None \<rparr>"
  shows
    "names S = [''MapGetUserMapPickCategory'',
                ''MapPickProduct'' @ ''Seq'' @ take 8 (hex_EncodeToString (sha256_Sum256 ''MapMailTo''))]
     \<and> map (\<lambda>c. map state_id (chain_of c)) (stack S) =
          [[''MapGetUser'', ''MapPickCategory''],
           [''MapPickProduct'', ''Seq'' @ take 8 (hex_EncodeToString (sha256_Sum256 ''MapMailTo''))]]
     \<and> OnLeaveSeq seq S = (S', None)
     \<and> stack S' = butlast (butlast (stack S)) @
            [Some (chain_of (last (butlast (stack S))) @
               [MapState
                  (''Seq'' @ take 8 (hex_EncodeToString (sha256_Sum256
                      (concat (map state_id (chain_of (last (stack S))))))))
                  ''$.Payload'' (case hd seq of AstMap (Lambda l) \<Rightarrow> concurency l | _ \<Rightarrow> 1)
                  (chain_of (last (stack S)))])]
     \<and> map state_id (chain_of (last (stack S'))) =
          [''MapGetUser'', ''MapPickCategory'',
           ''Seq'' @ take 8 (hex_EncodeToString (sha256_Sum256
              (''MapPickProduct'' @ ''Seq'' @ take 8 (hex_EncodeToString (sha256_Sum256 ''MapMailTo'')))))]
     \<and> snd (Apply scenario (NewTypeStep scenario_props)) = None
     \<and> (\<exists>c b pat. resources (fst (Apply scenario (NewTypeStep scenario_props)))
             = [StateMachine c, Rule b pat (StateMachine c)] \<and> (\<forall>s \<in> set c. seq_named s))
     \<and> names (fst (run (take 14 (trace_morphism scenario)) (NewTypeStep plain))) = names S
     \<and> map (map_option (map strip))
           (stack (fst (run (take 14 (trace_morphism scenario)) (NewTypeStep plain))))
         = map (map_option (map strip)) (stack S)
     \<and> stack (fst (run (take 14 (trace_morphism scenario)) (NewTypeStep plain))) \<noteq> stack S"
proof -
  have "snd (OnLeaveSeq seq S) = None"
    unfolding S_def seq_def by (simp add: scenario_def scenario_props_def run_defs)
  then have h: "OnLeaveSeq seq S = (S', None)"
    unfolding S'_def by (simp add: prod_eq_iff)
  have v1: "map (\<lambda>c. map state_id (chain_of c)) (stack S) =
          [[''MapGetUser'', ''MapPickCategory''],
           [''MapPickProduct'', ''Seq'' @ take 8 (hex_EncodeToString (sha256_Sum256 ''MapMailTo''))]]"
    unfolding S_def by (simp add: scenario_def scenario_props_def run_defs)
  have s1: "snd (Apply scenario (NewTypeStep scenario_props)) = None"
    by (simp add: Apply_def scenario_def scenario_props_def run_defs)
  then have a1: "Apply scenario (NewTypeStep scenario_props)
      = (fst (Apply scenario (NewTypeStep scenario_props)), None)"
    by (simp add: prod_eq_iff)
  note t = fan_out_naming[where n = 14 and root = scenario and props = scenario_props
      and seq = seq and S' = S' and ts' = "fst (Apply scenario (NewTypeStep scenario_props))"
      and other = plain, folded S_def]
  from t have 5: "names (fst (run (take 14 (trace_morphism scenario)) (NewTypeStep plain))) = names S"
    by blast
  from t have 6: "map (map_option (map strip))
           (stack (fst (run (take 14 (trace_morphism scenario)) (NewTypeStep plain))))
         = map (map_option (map strip)) (stack S)" by blast
  have 7: "stack (fst (run (take 14 (trace_morphism scenario)) (NewTypeStep plain))) \<noteq> stack S"
    unfolding S_def plain_def by (simp add: scenario_def scenario_props_def run_defs)
  from t have "names S = map (\<lambda>c. concat (map state_id (chain_of c))) (stack S)" by blast
  also have "\<dots> = map concat (map (\<lambda>c. map state_id (chain_of c)) (stack S))" by simp
  also have "\<dots> = [''MapGetUserMapPickCategory'',
                ''MapPickProduct'' @ ''Seq'' @ take 8 (hex_EncodeToString (sha256_Sum256 ''MapMailTo''))]"
    unfolding v1 by simp
  finally have 1: "names S = [''MapGetUserMapPickCategory'',
                ''MapPickProduct'' @ ''Seq'' @ take 8 (hex_EncodeToString (sha256_Sum256 ''MapMailTo''))]" .
  from t h have 2: "stack S' = butlast (butlast (stack S)) @
            [Some (chain_of (last (butlast (stack S))) @
               [MapState
                  (''Seq'' @ take 8 (hex_EncodeToString (sha256_Sum256
                      (concat (map state_id (chain_of (last (stack S))))))))
                  ''$.Payload'' (case hd seq of AstMap (Lambda l) \<Rightarrow> concurency l | _ \<Rightarrow> 1)
                  (chain_of (last (stack S)))])]" by blast
  have 3: "map state_id (chain_of (last (stack S'))) =
          [''MapGetUser'', ''MapPickCategory'',
           ''Seq'' @ take 8 (hex_EncodeToString (sha256_Sum256
              (''MapPickProduct'' @ ''Seq'' @ take 8 (hex_EncodeToString (sha256_Sum256 ''MapMailTo'')))))]"
    unfolding S'_def S_def seq_def by (simp add: scenario_def scenario_props_def run_defs)
  from t a1 have 4: "\<exists>c b pat. resources (fst (Apply scenario (NewTypeStep scenario_props)))
             = [StateMachine c, Rule b pat (StateMachine c)] \<and> (\<forall>s \<in> set c. seq_named s)" by blast
  from 1 v1 h 2 3 s1 4 5 6 7 show ?thesis by blast
qed

text \<open>
  C1. Path threading. The claim as written: immediately after \<^verbatim>\<open>OnLeaveSeq\<close> the input
  path is the one of the invocation result, \<open>$.Payload\<close>, as after \<^verbatim>\<open>OnLeaveMap\<close>. The
  code sets it to the root \<open>$\<close>: in the scenario of the specification, the outer
  \<^verbatim>\<open>OnLeaveSeq\<close> (the fifteenth callback) leaves \<open>$\<close>, and the sink that follows the
  fan-out reads its message at \<open>$\<close>.
\<close>

theorem path_threading_counterexample:
  "snd (OnLeaveSeq [AstMap (Lift_payload (IFunction ''PickProduct'')),
                    AstSeq [AstMap (Lift_payload (IFunction ''MailTo''))]]
         (fst (run (take 14 (trace_morphism scenario)) (NewTypeStep scenario_props)))) = None
   \<and> args (fst (OnLeaveSeq [AstMap (Lift_payload (IFunction ''PickProduct'')),
                    AstSeq [AstMap (Lift_payload (IFunction ''MailTo''))]]
         (fst (run (take 14 (trace_morphism scenario)) (NewTypeStep scenario_props))))) = ''$''
   \<and> args (fst (OnLeaveSeq [AstMap (Lift_payload (IFunction ''PickProduct'')),
                    AstSeq [AstMap (Lift_payload (IFunction ''MailTo''))]]
         (fst (run (take 14 (trace_morphism scenario)) (NewTypeStep scenario_props)))))
       \<noteq> ''$.Payload''
   \<and> args (fst (OnLeaveMap
         (fst (run (take 14 (trace_morphism scenario)) (NewTypeStep scenario_props))))) = ''$.Payload''
   \<and> args (fst (run (take 15 (trace_morphism scenario)) (NewTypeStep scenario_props))) = ''$''
   \<and> snd (Apply scenario (NewTypeStep scenario_props)) = None
   \<and> last (chain_of (last (stack (fst (Apply scenario (NewTypeStep scenario_props))))))
       = SqsSendMessage ''Sink'' (IQueue ''Reply'') ''$''"
  by (simp add: Apply_def scenario_def scenario_props_def run_defs)

text \<open>
  C1, amended. \<^verbatim>\<open>OnEnterFrom\<close> sets the input path to \<open>$.detail\<close>, \<^verbatim>\<open>OnLeaveMap\<close> to
  \<open>$.Payload\<close>, \<^verbatim>\<open>OnEnterSeq\<close> and \<^verbatim>\<open>OnLeaveSeq\<close> (when it returns no error) to the root
  \<open>$\<close>. So a node that compiles, from a state \<open>ts\<close> whose stack is not empty and whose
  names run parallel to it, leaves the path of its kind: \<open>$.detail\<close> after a \<^verbatim>\<open>From\<close>,
  \<open>$.Payload\<close> after a \<^verbatim>\<open>Map\<close>, \<open>$\<close> after a \<^verbatim>\<open>Seq\<close>, and the path it found after a
  \<^verbatim>\<open>Yield\<close>. The state a node emits declares the path left by the node before it: when a
  node \<open>a\<close> and then a \<^verbatim>\<open>Map\<close> of a \<^verbatim>\<open>lambda\<close> compile, the invocation state appended last
  has the path of \<open>a\<close> as input path, and when \<open>a\<close> and then a \<^verbatim>\<open>Yield\<close> compile, the sink
  appended last reads its message (or its detail) at the path of \<open>a\<close>. The first
  invocation state of the sub-chain of a \<^verbatim>\<open>Seq\<close> has the input path \<open>$\<close>.
\<close>

theorem path_threading:
  assumes "stack ts \<noteq> []" and "length (names ts) = length (stack ts)"
  shows
    "args (fst (OnEnterFrom Type (Source s) ts)) = ''$.detail''
     \<and> args (fst (OnLeaveMap ts)) = ''$.Payload''
     \<and> args (fst (OnEnterSeq ts)) = ''$''
     \<and> (OnLeaveSeq seq ts = (tsa, None) \<longrightarrow> args tsa = ''$'')
     \<and> (run (trace a) ts = (tsb, None) \<longrightarrow> args tsb = path_after a (args ts))
     \<and> (run (trace a @ trace (AstMap (Lambda l))) ts = (tsc, None) \<longrightarrow>
          (\<exists>cs. last (chain_of (last (stack tsc))) =
             LambdaInvoke (''Map'' @ function_id (lambda_f l)) (path_after a (args ts))
               (lambda_f l) cs))
     \<and> (run (trace a @ trace (AstYield T (Queue q))) ts = (tsd, None) \<longrightarrow>
          last (chain_of (last (stack tsd))) = SqsSendMessage ''Sink'' q (path_after a (args ts)))
     \<and> (run (trace a @ trace (AstYield T (EventBus e))) ts = (tse, None) \<longrightarrow>
          last (chain_of (last (stack tse))) =
            EventBridgePutEvents ''Sink'' (path_after a (args ts))
              (if length (eb_cat e) \<noteq> 0 then eb_cat e ! 0 else T) (eb_source e) (eb_bus e))
     \<and> (run (EnterSeq seq # trace (AstMap (Lambda l))) ts = (tsf, None) \<longrightarrow>
          (\<exists>cs. last (stack tsf) =
             Some [LambdaInvoke (''Map'' @ function_id (lambda_f l)) ''$'' (lambda_f l) cs]))"
proof -
  have 1: "args (fst (OnEnterFrom Type (Source s) ts)) = ''$.detail''"
    by (simp add: OnEnterFrom_def)
  have 2: "args (fst (OnLeaveMap ts)) = ''$.Payload''" by (simp add: OnLeaveMap_def)
  have 3: "args (fst (OnEnterSeq ts)) = ''$''" by (simp add: OnEnterSeq_def)
  have 4: "args tsa = ''$''" if "OnLeaveSeq seq ts = (tsa, None)"
    using that by (rule OnLeaveSeq_args)
  have 5: "args tsb = path_after a (args ts)" if "run (trace a) ts = (tsb, None)"
    using that by (rule run_trace_args)
  have mid: "\<exists>ts1. run (trace a) ts = (ts1, None) \<and> run (trace b) ts1 = (ts2, None) \<and>
      stack ts1 \<noteq> [] \<and> length (names ts1) = length (stack ts1) \<and>
      args ts1 = path_after a (args ts)"
    if r: "run (trace a @ trace b) ts = (ts2, None)" for b ts2
  proof -
    from run_append_None[OF r] obtain ts1 where
      r1: "run (trace a) ts = (ts1, None)" and r2: "run (trace b) ts1 = (ts2, None)" by blast
    show ?thesis
      using r1 r2 run_trace_wf[OF assms r1] run_trace_args[OF r1] by blast
  qed
  have 6: "\<exists>cs. last (chain_of (last (stack tsc))) =
             LambdaInvoke (''Map'' @ function_id (lambda_f l)) (path_after a (args ts))
               (lambda_f l) cs"
    if r: "run (trace a @ trace (AstMap (Lambda l))) ts = (tsc, None)"
  proof -
    from mid[OF r] obtain ts1 where r2: "run (trace (AstMap (Lambda l))) ts1 = (tsc, None)"
      and w: "stack ts1 \<noteq> []" "length (names ts1) = length (stack ts1)"
      and p: "args ts1 = path_after a (args ts)" by blast
    show ?thesis using r2 unfolding run_Map[OF w] p by auto
  qed
  have 7: "last (chain_of (last (stack tsd))) = SqsSendMessage ''Sink'' q (path_after a (args ts))"
    if r: "run (trace a @ trace (AstYield T (Queue q))) ts = (tsd, None)"
  proof -
    from mid[OF r] obtain ts1 where r2: "run (trace (AstYield T (Queue q))) ts1 = (tsd, None)"
      and w: "stack ts1 \<noteq> []" "length (names ts1) = length (stack ts1)"
      and p: "args ts1 = path_after a (args ts)" by blast
    show ?thesis using r2 unfolding run_Yield_Queue[OF w] p by auto
  qed
  have 8: "last (chain_of (last (stack tse))) =
            EventBridgePutEvents ''Sink'' (path_after a (args ts))
              (if length (eb_cat e) \<noteq> 0 then eb_cat e ! 0 else T) (eb_source e) (eb_bus e)"
    if r: "run (trace a @ trace (AstYield T (EventBus e))) ts = (tse, None)"
  proof -
    from mid[OF r] obtain ts1 where r2: "run (trace (AstYield T (EventBus e))) ts1 = (tse, None)"
      and w: "stack ts1 \<noteq> []" "length (names ts1) = length (stack ts1)"
      and p: "args ts1 = path_after a (args ts)" by blast
    show ?thesis using r2 unfolding run_Yield_EventBus[OF w] p by auto
  qed
  have 9: "\<exists>cs. last (stack tsf) =
             Some [LambdaInvoke (''Map'' @ function_id (lambda_f l)) ''$'' (lambda_f l) cs]"
    if r: "run (EnterSeq seq # trace (AstMap (Lambda l))) ts = (tsf, None)"
  proof -
    let ?ts0 = "ts\<lparr> stack := stack ts @ [None], names := names ts @ [''''], args := ''$'' \<rparr>"
    have w0: "stack ?ts0 \<noteq> []" "length (names ?ts0) = length (stack ?ts0)"
      using assms(2) by simp_all
    have "run (trace (AstMap (Lambda l))) ?ts0 = (tsf, None)"
      using r by (simp add: OnEnterSeq_def)
    then show ?thesis unfolding run_Map[OF w0] by auto
  qed
  from 1 2 3 4 5 6 7 8 9 show ?thesis by blast
qed
theorem path_threading_witness:
  defines "ts \<equiv> NewTypeStep scenario_props"
    and "frm \<equiv> AstFrom ''Account'' (From_payload (Some (IEventBus ''Input'')) [])"
    and "getUser \<equiv> \<lparr> concurency = 1, lambda_f = IFunction ''GetUser'' \<rparr>"
    and "pick \<equiv> \<lparr> concurency = 1, lambda_f = IFunction ''PickCategory'' \<rparr>"
    and "fanout \<equiv> AstSeq [AstMap (Lift_payload (IFunction ''MailTo''))]"
    and "e \<equiv> \<lparr> eb_bus = Some (IEventBus ''Output''), eb_source = ''typestep'', eb_cat = [''Sent''] \<rparr>"
    and "S \<equiv> fst (run (take 14 (trace_morphism scenario)) (NewTypeStep scenario_props))"
    and "seq \<equiv> [AstMap (Lift_payload (IFunction ''PickProduct'')),
                 AstSeq [AstMap (Lift_payload (IFunction ''MailTo''))]]"
  shows
    "snd (OnLeaveSeq seq S) = None \<and> args (fst (OnLeaveSeq seq S)) = ''$''
     \<and> snd (run (trace frm) ts) = None \<and> args (fst (run (trace frm) ts)) = ''$.detail''
     \<and> snd (run (trace frm @ trace (AstMap (Lambda getUser))) ts) = None
     \<and> (\<exists>cs. last (chain_of (last (stack (fst (run (trace frm @ trace (AstMap (Lambda getUser))) ts)))))
           = LambdaInvoke ''MapGetUser'' ''$.detail'' (IFunction ''GetUser'') cs)
     \<and> snd (run (trace (AstMap (Lambda getUser)) @ trace (AstMap (Lambda pick))) ts) = None
     \<and> (\<exists>cs. last (chain_of (last (stack
             (fst (run (trace (AstMap (Lambda getUser)) @ trace (AstMap (Lambda pick))) ts)))))
           = LambdaInvoke ''MapPickCategory'' ''$.Payload'' (IFunction ''PickCategory'') cs)
     \<and> snd (run (trace fanout @ trace (AstMap (Lambda pick))) ts) = None
     \<and> (\<exists>cs. last (chain_of (last (stack (fst (run (trace fanout @ trace (AstMap (Lambda pick))) ts)))))
           = LambdaInvoke ''MapPickCategory'' ''$'' (IFunction ''PickCategory'') cs)
     \<and> snd (run (trace fanout @ trace (AstYield ''Mail'' (Queue (IQueue ''Reply'')))) ts) = None
     \<and> last (chain_of (last (stack
           (fst (run (trace fanout @ trace (AstYield ''Mail'' (Queue (IQueue ''Reply'')))) ts)))))
         = SqsSendMessage ''Sink'' (IQueue ''Reply'') ''$''
     \<and> snd (run (trace (AstMap (Lambda getUser)) @ trace (AstYield ''Mail'' (EventBus e))) ts) = None
     \<and> last (chain_of (last (stack
           (fst (run (trace (AstMap (Lambda getUser)) @ trace (AstYield ''Mail'' (EventBus e))) ts)))))
         = EventBridgePutEvents ''Sink'' ''$.Payload'' ''Sent'' ''typestep'' (Some (IEventBus ''Output''))
     \<and> snd (run (EnterSeq [AstMap (Lambda pick)] # trace (AstMap (Lambda pick))) ts) = None
     \<and> (\<exists>cs. last (stack (fst (run (EnterSeq [AstMap (Lambda pick)] # trace (AstMap (Lambda pick))) ts)))
           = Some [LambdaInvoke ''MapPickCategory'' ''$'' (IFunction ''PickCategory'') cs])"
proof -
  have w: "stack ts \<noteq> []" "length (names ts) = length (stack ts)"
    unfolding ts_def by (simp_all add: NewTypeStep_def)
  have wS: "stack S \<noteq> []" "length (names S) = length (stack S)"
    unfolding S_def by (simp_all add: scenario_def scenario_props_def run_defs)
  have h4: "snd (OnLeaveSeq seq S) = None"
    unfolding S_def seq_def by (simp add: scenario_def scenario_props_def run_defs)
  have h5: "snd (run (trace frm) ts) = None"
    unfolding ts_def frm_def by (simp add: scenario_props_def run_defs)
  have h6a: "snd (run (trace frm @ trace (AstMap (Lambda getUser))) ts) = None"
    unfolding ts_def frm_def getUser_def by (simp add: scenario_props_def run_defs)
  have h6b: "snd (run (trace (AstMap (Lambda getUser)) @ trace (AstMap (Lambda pick))) ts) = None"
    unfolding ts_def pick_def getUser_def by (simp add: scenario_props_def run_defs)
  have h6c: "snd (run (trace fanout @ trace (AstMap (Lambda pick))) ts) = None"
    unfolding ts_def pick_def fanout_def by (simp add: scenario_props_def run_defs)
  have h7: "snd (run (trace fanout @ trace (AstYield ''Mail'' (Queue (IQueue ''Reply'')))) ts) = None"
    unfolding ts_def fanout_def by (simp add: scenario_props_def run_defs)
  have h8: "snd (run (trace (AstMap (Lambda getUser)) @ trace (AstYield ''Mail'' (EventBus e))) ts) = None"
    unfolding ts_def getUser_def e_def by (simp add: scenario_props_def run_defs)
  have h9: "snd (run (EnterSeq [AstMap (Lambda pick)] # trace (AstMap (Lambda pick))) ts) = None"
    unfolding ts_def pick_def by (simp add: scenario_props_def run_defs)
  note p = prod_eq_iff
  from path_threading[OF wS, where seq = seq and tsa = "fst (OnLeaveSeq seq S)"] h4
  have 4: "args (fst (OnLeaveSeq seq S)) = ''$''" by (simp add: p)
  from path_threading[OF w, where a = frm and tsb = "fst (run (trace frm) ts)"] h5
  have 5: "args (fst (run (trace frm) ts)) = ''$.detail''" by (simp add: p frm_def)
  from path_threading[OF w, where a = frm and l = getUser
      and tsc = "fst (run (trace frm @ trace (AstMap (Lambda getUser))) ts)"] h6a
  have 6: "\<exists>cs. last (chain_of (last (stack (fst (run (trace frm @ trace (AstMap (Lambda getUser))) ts)))))
           = LambdaInvoke ''MapGetUser'' ''$.detail'' (IFunction ''GetUser'') cs"
    by (simp add: p frm_def getUser_def)
  from path_threading[OF w, where a = "AstMap (Lambda getUser)" and l = pick
      and tsc = "fst (run (trace (AstMap (Lambda getUser)) @ trace (AstMap (Lambda pick))) ts)"] h6b
  have 7: "\<exists>cs. last (chain_of (last (stack
             (fst (run (trace (AstMap (Lambda getUser)) @ trace (AstMap (Lambda pick))) ts)))))
           = LambdaInvoke ''MapPickCategory'' ''$.Payload'' (IFunction ''PickCategory'') cs"
    by (simp add: p pick_def)
  from path_threading[OF w, where a = fanout and l = pick
      and tsc = "fst (run (trace fanout @ trace (AstMap (Lambda pick))) ts)"] h6c
  have 8: "\<exists>cs. last (chain_of (last (stack (fst (run (trace fanout @ trace (AstMap (Lambda pick))) ts)))))
           = LambdaInvoke ''MapPickCategory'' ''$'' (IFunction ''PickCategory'') cs"
    by (simp add: p pick_def fanout_def)
  from path_threading[OF w, where a = fanout and T = "''Mail''" and q = "IQueue ''Reply''"
      and tsd = "fst (run (trace fanout @ trace (AstYield ''Mail'' (Queue (IQueue ''Reply'')))) ts)"] h7
  have 9: "last (chain_of (last (stack
           (fst (run (trace fanout @ trace (AstYield ''Mail'' (Queue (IQueue ''Reply'')))) ts)))))
         = SqsSendMessage ''Sink'' (IQueue ''Reply'') ''$''"
    by (simp add: p fanout_def)
  from path_threading[OF w, where a = "AstMap (Lambda getUser)" and T = "''Mail''" and e = e
      and tse = "fst (run (trace (AstMap (Lambda getUser)) @ trace (AstYield ''Mail'' (EventBus e))) ts)"] h8
  have 10: "last (chain_of (last (stack
           (fst (run (trace (AstMap (Lambda getUser)) @ trace (AstYield ''Mail'' (EventBus e))) ts)))))
         = EventBridgePutEvents ''Sink'' ''$.Payload'' ''Sent'' ''typestep'' (Some (IEventBus ''Output''))"
    by (simp add: p e_def)
  from path_threading[OF w, where seq = "[AstMap (Lambda pick)]" and l = pick
      and tsf = "fst (run (EnterSeq [AstMap (Lambda pick)] # trace (AstMap (Lambda pick))) ts)"] h9
  have 11: "\<exists>cs. last (stack (fst (run (EnterSeq [AstMap (Lambda pick)] # trace (AstMap (Lambda pick))) ts)))
           = Some [LambdaInvoke ''MapPickCategory'' ''$'' (IFunction ''PickCategory'') cs]"
    by (simp add: p pick_def)
  from h4 4 h5 5 h6a 6 h6b 7 h6c 8 h7 9 h8 10 h9 11 show ?thesis by blast
qed




end
